theory Spec2Isabelle
  imports Main "HOL-Library.Word"
begin

unbundle bit_operations_syntax

section \<open>The write-ahead-log storage engine (wal\_db\_upgraded.c)\<close>

subsection \<open>Machine types, constants and record layout\<close>

type_synonym byte = "8 word"
type_synonym u32 = "32 word"
type_synonym u64 = "64 word"

abbreviation (input) PAGE_SIZE :: nat where "PAGE_SIZE \<equiv> 4096"
abbreviation (input) MAX_TX :: u32 where "MAX_TX \<equiv> 1024"
abbreviation (input) MAX_READERS :: nat where "MAX_READERS \<equiv> 32"
abbreviation (input) CACHE_SIZE :: nat where "CACHE_SIZE \<equiv> 64"
abbreviation (input) WAL_MAGIC_COMMIT :: u32 where "WAL_MAGIC_COMMIT \<equiv> 0xC0DECAFE"
abbreviation (input) WAL_PAGE :: u32 where "WAL_PAGE \<equiv> 1"
abbreviation (input) WAL_COMMIT :: u32 where "WAL_COMMIT \<equiv> 2"

text \<open>\<open>sizeof(WalPageRecord)\<close> is three 32-bit fields and the page, \<open>sizeof(WalCommitRecord)\<close>
  is three 32-bit fields; neither struct has padding.\<close>

abbreviation (input) PAGE_REC_SIZE :: nat where "PAGE_REC_SIZE \<equiv> 4108"
abbreviation (input) COMMIT_REC_SIZE :: nat where "COMMIT_REC_SIZE \<equiv> 12"

text \<open>A 32-bit field in memory (little-endian, as on the reference platform), written and read.\<close>

definition le32 :: "u32 \<Rightarrow> byte list" where
  "le32 w = [ucast w, ucast (drop_bit 8 w), ucast (drop_bit 16 w), ucast (drop_bit 24 w)]"

definition rd32 :: "byte list \<Rightarrow> nat \<Rightarrow> u32" where
  "rd32 bs i = ucast (bs ! i) OR push_bit 8 (ucast (bs ! (i + 1)))
       OR push_bit 16 (ucast (bs ! (i + 2))) OR push_bit 24 (ucast (bs ! (i + 3)))"

text \<open>The fields of a struct image: \<open>WalPageRecord {type, tx_id, page_id, data[PAGE_SIZE]}\<close>
  and \<open>WalCommitRecord {type, tx_id, magic}\<close>.\<close>

definition pr_type :: "byte list \<Rightarrow> u32" where "pr_type img = rd32 img 0"
definition pr_tx_id :: "byte list \<Rightarrow> u32" where "pr_tx_id img = rd32 img 4"
definition pr_page_id :: "byte list \<Rightarrow> u32" where "pr_page_id img = rd32 img 8"
definition pr_data :: "byte list \<Rightarrow> byte list" where "pr_data img = take PAGE_SIZE (drop 12 img)"

definition cr_tx_id :: "byte list \<Rightarrow> u32" where "cr_tx_id img = rd32 img 4"
definition cr_magic :: "byte list \<Rightarrow> u32" where "cr_magic img = rd32 img 8"

subsection \<open>Files and file descriptors\<close>

text \<open>A file is its byte contents. \<open>read(fd, buf, n)\<close> at offset \<open>off\<close> transfers
  \<open>rd_cnt f off n\<close> bytes. The buffers the engine reads into are uninitialised locals, so
  after a short read the rest of the buffer is indeterminate: \<open>ind\<close> stands for those bytes
  and is left arbitrary.\<close>

definition fill :: "(nat \<Rightarrow> byte) \<Rightarrow> nat \<Rightarrow> byte list \<Rightarrow> byte list" where
  "fill ind n bs = take n bs @ map ind [length (take n bs)..<n]"

definition rd_cnt :: "byte list \<Rightarrow> nat \<Rightarrow> nat \<Rightarrow> nat" where
  "rd_cnt f off n = length (take n (drop off f))"

definition rd_buf :: "(nat \<Rightarrow> byte) \<Rightarrow> byte list \<Rightarrow> nat \<Rightarrow> nat \<Rightarrow> byte list" where
  "rd_buf ind f off n = fill ind n (take n (drop off f))"

text \<open>\<open>lseek(fd, -k, SEEK_CUR)\<close>: fails, leaving the offset alone, when the result would be
  negative.\<close>

definition seek_back :: "nat \<Rightarrow> nat \<Rightarrow> nat" where
  "seek_back off k = (if k \<le> off then off - k else off)"

text \<open>\<open>write(fd, bs, length bs)\<close> at offset \<open>off\<close>: overwrites in place, extends the file, and
  fills a gap beyond the old end with zero bytes. Writes are taken to succeed (the engine
  exits on a short write).\<close>

definition sys_write :: "byte list \<Rightarrow> nat \<Rightarrow> byte list \<Rightarrow> byte list" where
  "sys_write f off bs = take off f @ replicate (off - length f) 0 @ bs @ drop (off + length bs) f"

subsection \<open>Global state\<close>

record CachedPage =
  page_id :: u32
  owner_tx :: u32
  dirty :: bool
  data :: "byte list"

record WriteTxn =
  tx_id :: u32

record ReaderTxn =
  snapshot :: u64

text \<open>The statics of the engine and the two files. \<open>reader_snapshots\<close> and \<open>cache\<close> hold the
  used prefix of their arrays (\<open>reader_count\<close> and \<open>cache_count\<close> are their lengths).
  \<open>wal_pos\<close> is the file offset of \<open>wal_fd\<close>; every access to \<open>db_fd\<close> seeks absolutely first,
  so its offset is not part of the state. \<open>indet\<close> is what the uninitialised read buffers of
  this process hold before a read; it is arbitrary, and another process has its own.\<close>

record state =
  db :: "byte list"
  wal :: "byte list"
  wal_pos :: nat
  next_tx_id :: u32
  reader_snapshots :: "u64 list"
  cache :: "CachedPage list"
  opened :: bool
  indet :: "nat \<Rightarrow> byte"

datatype error = CacheFull

text \<open>A process start: the static initialisers, over the two files as they are on disk.\<close>

definition init_state :: "byte list \<Rightarrow> byte list \<Rightarrow> (nat \<Rightarrow> byte) \<Rightarrow> state" where
  "init_state d w ind =
     \<lparr>db = d, wal = w, wal_pos = 0, next_tx_id = 1, reader_snapshots = [],
      cache = [], opened = False, indet = ind\<rparr>"

subsection \<open>Transactions\<close>

definition begin_write_txn :: "state \<Rightarrow> WriteTxn \<times> state" where
  "begin_write_txn s = (\<lparr>tx_id = next_tx_id s\<rparr>, s\<lparr>next_tx_id := next_tx_id s + 1\<rparr>)"

definition begin_read_txn :: "state \<Rightarrow> ReaderTxn \<times> state" where
  "begin_read_txn s =
     (let snap = (of_nat (length (wal s)) :: u64);
          s1 = s\<lparr>wal_pos := length (wal s)\<rparr>
      in (\<lparr>snapshot = snap\<rparr>,
          if length (reader_snapshots s1) < MAX_READERS
          then s1\<lparr>reader_snapshots := reader_snapshots s1 @ [snap]\<rparr> else s1))"

subsection \<open>Page cache\<close>

fun find_cached_page :: "CachedPage list \<Rightarrow> u32 \<Rightarrow> nat option" where
  "find_cached_page [] pid = None"
| "find_cached_page (e # es) pid =
     (if page_id e = pid then Some 0 else map_option Suc (find_cached_page es pid))"

definition get_or_create_cached_page :: "state \<Rightarrow> u32 \<Rightarrow> u32 \<Rightarrow> error + (nat \<times> state)" where
  "get_or_create_cached_page s pid tx =
     (case find_cached_page (cache s) pid of
        Some i \<Rightarrow> Inr (i, s)
      | None \<Rightarrow>
          if length (cache s) \<ge> CACHE_SIZE then Inl CacheFull
          else Inr (length (cache s),
                    s\<lparr>cache := cache s @
                       [\<lparr>page_id = pid, owner_tx = tx, dirty = False,
                         data = replicate PAGE_SIZE 0\<rparr>]\<rparr>))"

subsection \<open>WAL writer\<close>

definition wal_append_page :: "state \<Rightarrow> WriteTxn \<Rightarrow> u32 \<Rightarrow> byte list \<Rightarrow> state" where
  "wal_append_page s tx pid d =
     (let rec = le32 WAL_PAGE @ le32 (tx_id tx) @ le32 pid @ fill (indet s) PAGE_SIZE d
      in s\<lparr>wal := sys_write (wal s) (wal_pos s) rec, wal_pos := wal_pos s + length rec\<rparr>)"

definition wal_commit :: "state \<Rightarrow> WriteTxn \<Rightarrow> state" where
  "wal_commit s tx =
     (let rec = le32 WAL_COMMIT @ le32 (tx_id tx) @ le32 WAL_MAGIC_COMMIT
      in s\<lparr>wal := sys_write (wal s) (wal_pos s) rec, wal_pos := wal_pos s + length rec\<rparr>)"

subsection \<open>Data file I/O\<close>

definition read_page_from_db :: "state \<Rightarrow> u32 \<Rightarrow> byte list \<Rightarrow> byte list" where
  "read_page_from_db s pid out =
     (let bs = take PAGE_SIZE (drop (unat pid * PAGE_SIZE) (db s))
      in if length bs = 0 then replicate PAGE_SIZE 0 else bs @ drop (length bs) out)"

definition write_page_to_db :: "byte list \<Rightarrow> u32 \<Rightarrow> byte list \<Rightarrow> byte list" where
  "write_page_to_db d pid pg = sys_write d (unat pid * PAGE_SIZE) pg"

text \<open>Every iteration of a forward scan that reads at least one byte moves the offset of
  \<open>wal_fd\<close> forward, so the scans terminate.\<close>

lemma scan_advances:
  "0 < rd_cnt f off 4 \<Longrightarrow> 4 \<le> n \<Longrightarrow>
     length f - (seek_back (off + rd_cnt f off 4) 4
       + rd_cnt f (seek_back (off + rd_cnt f off 4) 4) n) < length f - off"
  apply (simp only: rd_cnt_def seek_back_def length_take length_drop)
  apply (auto simp: min_def split: if_splits)
  done

subsection \<open>Recovery\<close>

text \<open>The loop of \<open>wal_recover\<close>: \<open>off\<close> is the offset of \<open>wal_fd\<close>, \<open>committed\<close> the local
  table, \<open>d\<close> the data file. It returns the final offset and data file. The loop ignores
  how many bytes the read of a record delivered: after a short read it takes the record
  from the buffer all the same, the missing bytes being what the buffer held (\<open>ind\<close>).\<close>

function recover_loop ::
  "(nat \<Rightarrow> byte) \<Rightarrow> byte list \<Rightarrow> nat \<Rightarrow> (u32 \<Rightarrow> bool) \<Rightarrow> byte list \<Rightarrow> nat \<times> byte list" where
  "recover_loop ind f off committed d =
     (if rd_cnt f off 4 = 0 then (off, d)
      else
        let type = rd32 (rd_buf ind f off 4) 0;
            off1 = seek_back (off + rd_cnt f off 4) 4
        in if type = WAL_COMMIT then
             let cr = rd_buf ind f off1 COMMIT_REC_SIZE;
                 off2 = off1 + rd_cnt f off1 COMMIT_REC_SIZE
             in recover_loop ind f off2
                  (if cr_magic cr = WAL_MAGIC_COMMIT \<and> cr_tx_id cr < MAX_TX
                   then committed(cr_tx_id cr := True) else committed) d
           else
             let pr = rd_buf ind f off1 PAGE_REC_SIZE;
                 off2 = off1 + rd_cnt f off1 PAGE_REC_SIZE
             in recover_loop ind f off2 committed
                  (if pr_tx_id pr < MAX_TX \<and> committed (pr_tx_id pr)
                   then write_page_to_db d (pr_page_id pr) (pr_data pr) else d))"
  by pat_completeness auto

termination recover_loop
  by (relation "measure (\<lambda>(ind, f, off, c, d). length f - off)") (simp_all add: scan_advances)

declare recover_loop.simps [simp del]

definition wal_recover :: "state \<Rightarrow> state" where
  "wal_recover s =
     (let (off, d) = recover_loop (indet s) (wal s) 0 (\<lambda>t. False) (db s)
      in s\<lparr>wal_pos := off, db := d\<rparr>)"

definition waldb_open :: "state \<Rightarrow> state" where
  "waldb_open s = (if opened s then s else (wal_recover s)\<lparr>opened := True\<rparr>)"

subsection \<open>WAL lookup\<close>

text \<open>The forward pass of \<open>wal_read_page\<close>: \<open>pos\<close> is the local of type \<open>off_t\<close>, \<open>off\<close> the
  offset of \<open>wal_fd\<close>, \<open>snap\<close> is \<open>(off_t)snapshot\<close>. It returns the table and the final offset.\<close>

function wal_scan_committed ::
  "(nat \<Rightarrow> byte) \<Rightarrow> byte list \<Rightarrow> int \<Rightarrow> int \<Rightarrow> nat \<Rightarrow> (u32 \<Rightarrow> bool) \<Rightarrow> (u32 \<Rightarrow> bool) \<times> nat" where
  "wal_scan_committed ind f snap pos off committed =
     (if \<not> pos < snap then (committed, off)
      else if rd_cnt f off 4 = 0 then (committed, off)
      else
        let type = rd32 (rd_buf ind f off 4) 0;
            off1 = seek_back (off + rd_cnt f off 4) 4
        in if type = WAL_COMMIT then
             let cr = rd_buf ind f off1 COMMIT_REC_SIZE;
                 off2 = off1 + rd_cnt f off1 COMMIT_REC_SIZE
             in wal_scan_committed ind f snap (pos + int COMMIT_REC_SIZE) off2
                  (if cr_magic cr = WAL_MAGIC_COMMIT \<and> cr_tx_id cr < MAX_TX
                   then committed(cr_tx_id cr := True) else committed)
           else
             let off2 = off1 + rd_cnt f off1 PAGE_REC_SIZE
             in wal_scan_committed ind f snap (pos + int PAGE_REC_SIZE) off2 committed)"
  by pat_completeness auto

termination wal_scan_committed
  by (relation "measure (\<lambda>(ind, f, snap, pos, off, c). length f - off)") (simp_all add: scan_advances)

declare wal_scan_committed.simps [simp del]

text \<open>The reverse pass: steps back by \<open>sizeof(WalPageRecord)\<close> from the snapshot while
  \<open>pos > sizeof(WalPageRecord)\<close>. It returns the page copied to \<open>out\<close> (if any) and the final
  offset of \<open>wal_fd\<close>.\<close>

function wal_scan_back ::
  "(nat \<Rightarrow> byte) \<Rightarrow> byte list \<Rightarrow> u32 \<Rightarrow> (u32 \<Rightarrow> bool) \<Rightarrow> int \<Rightarrow> nat \<Rightarrow> byte list option \<times> nat" where
  "wal_scan_back ind f pid committed pos off =
     (if \<not> pos > int PAGE_REC_SIZE then (None, off)
      else
        let pos1 = pos - int PAGE_REC_SIZE;
            pr = rd_buf ind f (nat pos1) PAGE_REC_SIZE;
            off1 = nat pos1 + rd_cnt f (nat pos1) PAGE_REC_SIZE
        in if rd_cnt f (nat pos1) PAGE_REC_SIZE = 0 then (None, off1)
           else if pr_type pr = WAL_PAGE \<and> pr_page_id pr = pid \<and> pr_tx_id pr < MAX_TX
                   \<and> committed (pr_tx_id pr)
           then (Some (pr_data pr), off1)
           else wal_scan_back ind f pid committed pos1 off1)"
  by pat_completeness auto

termination wal_scan_back
  by (relation "measure (\<lambda>(ind, f, pid, c, pos, off). nat pos)") auto

declare wal_scan_back.simps [simp del]

definition wal_read_page :: "state \<Rightarrow> u32 \<Rightarrow> u64 \<Rightarrow> byte list option \<times> state" where
  "wal_read_page s pid snap =
     (let (committed, off) =
            wal_scan_committed (indet s) (wal s) (sint snap) 0 0 (\<lambda>t. False);
          (r, off') = wal_scan_back (indet s) (wal s) pid committed (sint snap) off
      in (r, s\<lparr>wal_pos := off'\<rparr>))"

subsection \<open>High-level API\<close>

definition write_page_int :: "state \<Rightarrow> WriteTxn \<Rightarrow> u32 \<Rightarrow> byte list \<Rightarrow> error + state" where
  "write_page_int s tx pid d =
     (case get_or_create_cached_page s pid (tx_id tx) of
        Inl e \<Rightarrow> Inl e
      | Inr (i, s1) \<Rightarrow>
          Inr (s1\<lparr>cache := (cache s1)[i := (cache s1 ! i)
                 \<lparr>data := fill (indet s1) PAGE_SIZE d, dirty := True, owner_tx := tx_id tx\<rparr>]\<rparr>))"

definition commit_step :: "WriteTxn \<Rightarrow> nat \<Rightarrow> state \<Rightarrow> state" where
  "commit_step tx i s =
     (if dirty (cache s ! i) \<and> owner_tx (cache s ! i) = tx_id tx
      then (wal_append_page s tx (page_id (cache s ! i)) (data (cache s ! i)))
             \<lparr>cache := (cache s)[i := (cache s ! i)\<lparr>dirty := False\<rparr>]\<rparr>
      else s)"

text \<open>\<open>commit_pages\<close> is the \<open>for\<close> loop of \<open>commit_tx\<close> (\<open>commit_step\<close> its body);
  \<open>commit_tx\<close> then calls \<open>wal_commit\<close>.\<close>

definition commit_pages :: "state \<Rightarrow> WriteTxn \<Rightarrow> state" where
  "commit_pages s tx = fold (commit_step tx) [0..<length (cache s)] s"

definition commit_tx :: "state \<Rightarrow> WriteTxn \<Rightarrow> state" where
  "commit_tx s tx = wal_commit (commit_pages s tx) tx"

definition read_page_int :: "state \<Rightarrow> ReaderTxn \<Rightarrow> u32 \<Rightarrow> byte list \<Rightarrow> byte list \<times> state" where
  "read_page_int s rx pid out =
     (case find_cached_page (cache s) pid of
        Some i \<Rightarrow> (data (cache s ! i), s)
      | None \<Rightarrow>
          (case wal_read_page s pid (snapshot rx) of
             (Some pg, s1) \<Rightarrow> (pg, s1)
           | (None, s1) \<Rightarrow> (read_page_from_db s1 pid out, s1)))"

subsection \<open>Checkpoint\<close>

definition oldest_reader_snapshot :: "state \<Rightarrow> u64" where
  "oldest_reader_snapshot s =
     (if length (reader_snapshots s) = 0 then 0
      else fold (\<lambda>x m. if x < m then x else m) (reader_snapshots s) (- 1))"

function checkpoint_loop ::
  "(nat \<Rightarrow> byte) \<Rightarrow> byte list \<Rightarrow> int \<Rightarrow> int \<Rightarrow> nat \<Rightarrow> byte list \<Rightarrow> nat \<times> byte list" where
  "checkpoint_loop ind f safe pos off d =
     (if \<not> pos < safe then (off, d)
      else if rd_cnt f off 4 = 0 then (off, d)
      else
        let type = rd32 (rd_buf ind f off 4) 0;
            off1 = seek_back (off + rd_cnt f off 4) 4
        in if type = WAL_PAGE then
             let pr = rd_buf ind f off1 PAGE_REC_SIZE;
                 off2 = off1 + rd_cnt f off1 PAGE_REC_SIZE
             in checkpoint_loop ind f safe (pos + int PAGE_REC_SIZE) off2
                  (write_page_to_db d (pr_page_id pr) (pr_data pr))
           else
             let off2 = off1 + rd_cnt f off1 COMMIT_REC_SIZE
             in checkpoint_loop ind f safe (pos + int COMMIT_REC_SIZE) off2 d)"
  by pat_completeness auto

termination checkpoint_loop
  by (relation "measure (\<lambda>(ind, f, safe, pos, off, d). length f - off)") (simp_all add: scan_advances)

declare checkpoint_loop.simps [simp del]

definition checkpoint_int :: "state \<Rightarrow> state" where
  "checkpoint_int s =
     (let safe = oldest_reader_snapshot s;
          (off, d) = checkpoint_loop (indet s) (wal s) (sint safe) 0 0 (db s)
      in s\<lparr>wal_pos := off, db := d\<rparr>)"

subsection \<open>Exported entry points\<close>

text \<open>A pointer argument is \<open>None\<close> when it is \<open>NULL\<close>. \<open>page_id\<close> arrives as a C \<open>int\<close> and
  is cast to \<open>uint32_t\<close>.\<close>

definition begin_read :: "state \<Rightarrow> ReaderTxn option \<times> state" where
  "begin_read s = (let (r, s1) = begin_read_txn s in (Some r, s1))"

definition begin_write :: "state \<Rightarrow> WriteTxn option \<times> state" where
  "begin_write s = (let (w, s1) = begin_write_txn s in (Some w, s1))"

definition commit :: "state \<Rightarrow> WriteTxn option \<Rightarrow> state" where
  "commit s txn_ptr = (case txn_ptr of None \<Rightarrow> s | Some txn \<Rightarrow> commit_tx s txn)"

definition checkpoint :: "state \<Rightarrow> state" where
  "checkpoint s = checkpoint_int s"

definition read_page :: "state \<Rightarrow> ReaderTxn option \<Rightarrow> int \<Rightarrow> byte list \<times> state" where
  "read_page s txn_ptr pid =
     (let buffer = replicate PAGE_SIZE 0
      in case txn_ptr of
           None \<Rightarrow> (buffer, s)
         | Some txn \<Rightarrow> read_page_int s txn (word_of_int pid) buffer)"

definition write_page :: "state \<Rightarrow> WriteTxn option \<Rightarrow> int \<Rightarrow> byte list option \<Rightarrow> error + state" where
  "write_page s txn_ptr pid data_ptr =
     (case txn_ptr of
        None \<Rightarrow> Inr s
      | Some txn \<Rightarrow>
          (case data_ptr of
             None \<Rightarrow> Inr s
           | Some d \<Rightarrow> write_page_int s txn (word_of_int pid) d))"

subsection \<open>A process lifetime of write transactions\<close>

text \<open>The transaction ids handed out by \<open>n\<close> successive calls of \<open>begin_write_txn\<close>.\<close>

fun begin_writes :: "nat \<Rightarrow> state \<Rightarrow> u32 list" where
  "begin_writes 0 s = []"
| "begin_writes (Suc n) s = (let (tx, s1) = begin_write_txn s in tx_id tx # begin_writes n s1)"

subsection \<open>The log as a sequence of records\<close>

text \<open>What \<open>wal_append_page\<close> and \<open>wal_commit\<close> put into the log: a page record
  \<open>PageRec tx_id page_id data\<close> or a commit record \<open>CommitRec tx_id magic\<close>. A log is
  well formed when it is the concatenation of such records, every page record carrying a
  full page.\<close>

datatype wal_rec = PageRec u32 u32 "byte list" | CommitRec u32 u32

fun enc :: "wal_rec \<Rightarrow> byte list" where
  "enc (PageRec t p d) = le32 WAL_PAGE @ le32 t @ le32 p @ d"
| "enc (CommitRec t m) = le32 WAL_COMMIT @ le32 t @ le32 m"

fun wf_rec :: "wal_rec \<Rightarrow> bool" where
  "wf_rec (PageRec t p d) = (length d = PAGE_SIZE)"
| "wf_rec (CommitRec t m) = True"

definition encode :: "wal_rec list \<Rightarrow> byte list" where
  "encode rs = concat (map enc rs)"

text \<open>The effect of the recovery loop on a well-formed log, record by record: the table
  of committed transactions and the data file.\<close>

fun replay :: "wal_rec list \<Rightarrow> (u32 \<Rightarrow> bool) \<Rightarrow> byte list \<Rightarrow> byte list" where
  "replay [] committed d = d"
| "replay (CommitRec t m # rs) committed d =
     replay rs (if m = WAL_MAGIC_COMMIT \<and> t < MAX_TX then committed(t := True) else committed) d"
| "replay (PageRec t p pg # rs) committed d =
     replay rs committed (if t < MAX_TX \<and> committed t then write_page_to_db d p pg else d)"

text \<open>The table of committed transactions the scans build over a well-formed log.\<close>

fun marks :: "wal_rec list \<Rightarrow> (u32 \<Rightarrow> bool) \<Rightarrow> (u32 \<Rightarrow> bool)" where
  "marks [] committed = committed"
| "marks (CommitRec t m # rs) committed =
     marks rs (if m = WAL_MAGIC_COMMIT \<and> t < MAX_TX then committed(t := True) else committed)"
| "marks (PageRec t p pg # rs) committed = marks rs committed"

text \<open>The effect of the checkpoint loop on a well-formed log, record by record: it writes
  every page record.\<close>

fun flush :: "wal_rec list \<Rightarrow> byte list \<Rightarrow> byte list" where
  "flush [] d = d"
| "flush (PageRec t p pg # rs) d = flush rs (write_page_to_db d p pg)"
| "flush (CommitRec t m # rs) d = flush rs d"

text \<open>Page records of a transaction, and commit records of a transaction that carry the
  right magic.\<close>

fun is_page_of :: "u32 \<Rightarrow> wal_rec \<Rightarrow> bool" where
  "is_page_of t (PageRec t' p pg) = (t' = t)"
| "is_page_of t (CommitRec t' m) = False"

fun valid_commit_of :: "u32 \<Rightarrow> wal_rec \<Rightarrow> bool" where
  "valid_commit_of t (CommitRec t' m) = (t' = t \<and> m = WAL_MAGIC_COMMIT)"
| "valid_commit_of t (PageRec t' p pg) = False"

text \<open>A sequence of positioned writes applied to a file, and the byte of a file at an
  offset (zero beyond its end).\<close>

definition apply_writes :: "(nat \<times> byte list) list \<Rightarrow> byte list \<Rightarrow> byte list" where
  "apply_writes ws d = fold (\<lambda>(off, bs) d. sys_write d off bs) ws d"


definition covered :: "(nat \<times> byte list) list \<Rightarrow> nat set" where
  "covered ws = (\<Union>(off, bs)\<in>set ws. {off..<off + length bs})"

subsection \<open>Logs without a torn record\<close>




subsection \<open>Crash and restart\<close>

text \<open>A crash loses the statics (cache, reader registry, \<open>next_tx_id\<close>, file offsets); the
  two files stay as they are. The next process starts from its static initialisers and calls
  \<open>waldb_open\<close>. It is another process: what its uninitialised buffers hold, \<open>ind'\<close>, has
  nothing to do with what the buffers of the process before held.\<close>

definition reopen_after_crash :: "(nat \<Rightarrow> byte) \<Rightarrow> state \<Rightarrow> state" where
  "reopen_after_crash ind' s = waldb_open (init_state (db s) (wal s) ind')"

section \<open>The hash join over JSON rows (src/src/c/hashjoin.c)\<close>

subsection \<open>The Python objects the join handles\<close>

text \<open>The join decodes and encodes rows through CPython's \<open>json\<close> module and converts keys
  with \<open>PyObject_Str\<close> and \<open>PyUnicode_AsUTF8\<close>. These are not code of the repository: the
  model takes them as parameters \<open>loads\<close>, \<open>dumps\<close> and \<open>str_utf8\<close>, each returning \<open>None\<close>
  where the C call returns \<open>NULL\<close>. A decoded row is a dictionary (an insertion-ordered list
  of fields) or some other object; \<open>'v\<close> is the type of field values.\<close>

datatype 'v pyobj = PyDict "(string \<times> 'v) list" | PyOther

text \<open>\<open>PyDict_GetItemString\<close>: \<open>NULL\<close> when the object is not a dictionary or has no such key.\<close>

fun PyDict_GetItemString :: "'v pyobj \<Rightarrow> string \<Rightarrow> 'v option" where
  "PyDict_GetItemString (PyDict d) k = map_of d k"
| "PyDict_GetItemString PyOther k = None"

text \<open>\<open>PyDict_Update\<close> on a copy: a field of the second dictionary replaces the value of a
  field already present, in place, and is appended otherwise.\<close>

fun dict_set :: "string \<Rightarrow> 'v \<Rightarrow> (string \<times> 'v) list \<Rightarrow> (string \<times> 'v) list" where
  "dict_set k v [] = [(k, v)]"
| "dict_set k v (p # ps) = (if fst p = k then (k, v) # ps else p # dict_set k v ps)"

definition PyDict_Update :: "(string \<times> 'v) list \<Rightarrow> (string \<times> 'v) list \<Rightarrow> (string \<times> 'v) list" where
  "PyDict_Update a b = fold (\<lambda>(k, v) m. dict_set k v m) b a"

subsection \<open>The error indicator\<close>

text \<open>A call into Python that fails returns \<open>NULL\<close> and sets the error indicator of the
  interpreter. A call made while the indicator is set returns \<open>NULL\<close> as well (the interpreter
  refuses a result with an exception set). Nothing in \<open>hashjoin.c\<close> clears the indicator
  (there is no \<open>PyErr_Clear\<close>), so the model threads it through both phases as a flag
  \<open>err\<close>; it is taken to be clear on entry, the import of \<open>json\<close> to succeed, and
  \<open>PyUnicode_FromString\<close> to succeed on every row.\<close>

definition py_call :: "('a \<Rightarrow> 'b option) \<Rightarrow> 'a \<Rightarrow> bool \<Rightarrow> 'b option \<times> bool" where
  "py_call f x err =
     (if err then (None, True)
      else case f x of None \<Rightarrow> (None, True) | Some y \<Rightarrow> (Some y, False))"

subsection \<open>Utilities\<close>

abbreviation (input) HASH_SIZE :: nat where "HASH_SIZE \<equiv> 4096"

text \<open>A C string ends at its first zero byte.\<close>

definition c_str :: "string \<Rightarrow> string" where
  "c_str s = takeWhile (\<lambda>c. c \<noteq> CHR 0x00) s"

text \<open>\<open>hash_str\<close>: \<open>h = ((h << 5) + h) + c\<close> over \<open>unsigned long\<close> (64 bits), \<open>c\<close> a \<open>char\<close>
  converted to \<open>int\<close> (signed on the reference platform).\<close>

definition hash_str :: "string \<Rightarrow> 64 word" where
  "hash_str s = fold (\<lambda>c h. (push_bit 5 h + h) + scast (of_char c :: 8 word)) (c_str s) 5381"

subsection \<open>Hash table\<close>

text \<open>An entry holds its key and the rows stored under it (\<open>count\<close> is the length of \<open>rows\<close>;
  \<open>cap\<close> only drives \<open>realloc\<close>). A slot whose \<open>key\<close> is \<open>NULL\<close> is \<open>None\<close>.\<close>

record HashEntry =
  key :: string
  rows :: "string list"

datatype slot = SlotFound nat | SlotEmpty nat | TableFull

text \<open>Linear probing, as both phases do it: from \<open>start\<close>, slot \<open>idx = (start + n) mod
  HASH_SIZE\<close> is inspected at step \<open>n\<close>; the walk ends at a slot with a \<open>NULL\<close> key, at a slot
  holding the key, or when \<open>idx\<close> is back at \<open>start\<close>, that is after \<open>HASH_SIZE\<close> steps.\<close>

function find_slot :: "HashEntry option list \<Rightarrow> string \<Rightarrow> nat \<Rightarrow> nat \<Rightarrow> slot" where
  "find_slot table k start n =
     (let idx = (start + n) mod HASH_SIZE
      in case table ! idx of
           None \<Rightarrow> SlotEmpty idx
         | Some e \<Rightarrow>
             if key e = k then SlotFound idx
             else if Suc n \<ge> HASH_SIZE then TableFull
             else find_slot table k start (Suc n))"
  by pat_completeness auto

termination find_slot
  by (relation "measure (\<lambda>(table, k, start, n). HASH_SIZE - n)") auto

declare find_slot.simps [simp del]

subsection \<open>The join\<close>

text \<open>Build phase, one inner row; the state is the error indicator and the table. \<open>Inl ()\<close>
  is the jump to \<open>cleanup\<close> on a full table. The key is converted only when the row has
  decoded, that is with the indicator clear; a conversion that fails sets it.\<close>

definition build_row ::
  "(string \<Rightarrow> 'v pyobj option) \<Rightarrow> ('v \<Rightarrow> string option) \<Rightarrow> string \<Rightarrow>
   bool \<times> HashEntry option list \<Rightarrow> string \<Rightarrow> unit + bool \<times> HashEntry option list" where
  "build_row loads str_utf8 inner_key st row =
     (let (err, table) = st;
          (row_dict, err1) = py_call loads row err
      in case row_dict of
           None \<Rightarrow> Inr (err1, table)
         | Some row_dict \<Rightarrow>
             (case PyDict_GetItemString row_dict inner_key of
                None \<Rightarrow> Inr (err1, table)
              | Some key_obj \<Rightarrow>
                  (case str_utf8 key_obj of
                     None \<Rightarrow> Inr (True, table)
                   | Some key_cstr \<Rightarrow>
                       (case find_slot table (c_str key_cstr)
                               (unat (hash_str (c_str key_cstr)) mod HASH_SIZE) 0 of
                          TableFull \<Rightarrow> Inl ()
                        | SlotEmpty idx \<Rightarrow>
                            Inr (err1, table[idx := Some \<lparr>key = c_str key_cstr, rows = [row]\<rparr>])
                        | SlotFound idx \<Rightarrow>
                            Inr (err1, table[idx := map_option (\<lambda>e. e\<lparr>rows := rows e @ [row]\<rparr>)
                                                      (table ! idx)])))))"

fun build_table ::
  "(string \<Rightarrow> 'v pyobj option) \<Rightarrow> ('v \<Rightarrow> string option) \<Rightarrow> string \<Rightarrow>
   bool \<times> HashEntry option list \<Rightarrow> string list \<Rightarrow> unit + bool \<times> HashEntry option list" where
  "build_table loads str_utf8 inner_key st [] = Inr st"
| "build_table loads str_utf8 inner_key st (row # inner_rows) =
     (case build_row loads str_utf8 inner_key st row of
        Inl u \<Rightarrow> Inl u
      | Inr st' \<Rightarrow> build_table loads str_utf8 inner_key st' inner_rows)"

text \<open>The output state: the error indicator, \<open>result_count\<close>, and the bytes written to
  \<open>output_buf\<close> (\<open>out_pos\<close> is their number).\<close>

type_synonym out_state = "bool \<times> int \<times> string"

text \<open>One stored inner row against the decoded outer row: decode, merge, encode, and copy
  the encoded row with its terminating zero byte if it fits. \<open>dumps\<close> stands for the call of
  \<open>json.dumps\<close> followed by \<open>PyUnicode_AsUTF8\<close>. (A stored row that decodes to something
  other than a dictionary cannot arise, the build phase having found the key field in it;
  the model lets \<open>PyDict_Copy\<close> fail there.)\<close>

definition emit_row ::
  "(string \<Rightarrow> 'v pyobj option) \<Rightarrow> ((string \<times> 'v) list \<Rightarrow> string option) \<Rightarrow> int \<Rightarrow>
   (string \<times> 'v) list \<Rightarrow> string \<Rightarrow> out_state \<Rightarrow> out_state" where
  "emit_row loads dumps output_buf_size outer_dict inner_row st =
     (let (err, result_count, buf) = st;
          (inner_dict, err1) = py_call loads inner_row err
      in case inner_dict of
           None \<Rightarrow> (err1, result_count, buf)
         | Some PyOther \<Rightarrow> (True, result_count, buf)
         | Some (PyDict inner_dict) \<Rightarrow>
             (let (dumped, err2) = py_call dumps (PyDict_Update inner_dict outer_dict) err1
              in case dumped of
                   None \<Rightarrow> (err2, result_count, buf)
                 | Some out \<Rightarrow>
                     (let len = int (length (c_str out)) + 1
                      in if int (length buf) + len \<le> output_buf_size
                         then (err2, result_count + 1, buf @ c_str out @ [CHR 0x00])
                         else (err2, result_count, buf))))"

text \<open>Probe phase, one outer row.\<close>

definition probe_row ::
  "(string \<Rightarrow> 'v pyobj option) \<Rightarrow> ((string \<times> 'v) list \<Rightarrow> string option) \<Rightarrow>
   ('v \<Rightarrow> string option) \<Rightarrow> string \<Rightarrow> int \<Rightarrow> HashEntry option list \<Rightarrow>
   string \<Rightarrow> out_state \<Rightarrow> out_state" where
  "probe_row loads dumps str_utf8 outer_key output_buf_size table row st =
     (let (err, result_count, buf) = st;
          (outer, err1) = py_call loads row err
      in case outer of
           None \<Rightarrow> (err1, result_count, buf)
         | Some PyOther \<Rightarrow> (err1, result_count, buf)
         | Some (PyDict outer_dict) \<Rightarrow>
             (case map_of outer_dict outer_key of
                None \<Rightarrow> (err1, result_count, buf)
              | Some key_obj \<Rightarrow>
                  (case str_utf8 key_obj of
                     None \<Rightarrow> (True, result_count, buf)
                   | Some key_cstr \<Rightarrow>
                       (case find_slot table (c_str key_cstr)
                               (unat (hash_str (c_str key_cstr)) mod HASH_SIZE) 0 of
                          SlotFound idx \<Rightarrow>
                            (case table ! idx of
                               Some e \<Rightarrow>
                                 fold (emit_row loads dumps output_buf_size outer_dict) (rows e)
                                   (err1, result_count, buf)
                             | None \<Rightarrow> (err1, result_count, buf))
                        | SlotEmpty idx \<Rightarrow> (err1, result_count, buf)
                        | TableFull \<Rightarrow> (err1, result_count, buf)))))"

text \<open>The join: \<open>result_count\<close> as returned, and the contents of \<open>output_buf\<close>.\<close>

definition hash_join ::
  "(string \<Rightarrow> 'v pyobj option) \<Rightarrow> ((string \<times> 'v) list \<Rightarrow> string option) \<Rightarrow>
   ('v \<Rightarrow> string option) \<Rightarrow> string list \<Rightarrow> string list \<Rightarrow> string \<Rightarrow> string \<Rightarrow> int \<Rightarrow>
   int \<times> string" where
  "hash_join loads dumps str_utf8 inner_rows outer_rows inner_key outer_key output_buf_size =
     (case build_table loads str_utf8 inner_key (False, replicate HASH_SIZE None) inner_rows of
        Inl u \<Rightarrow> (0, [])
      | Inr (err, table) \<Rightarrow>
          snd (fold (probe_row loads dumps str_utf8 outer_key output_buf_size table) outer_rows
                 (err, 0, [])))"

subsection \<open>The join as a list of matching pairs\<close>

text \<open>The slot a key hashes to.\<close>

definition hidx :: "string \<Rightarrow> nat" where
  "hidx k = unat (hash_str k) mod HASH_SIZE"

text \<open>The key of a row as both phases take it: the row is decoded, the key field looked up
  and converted to a C string. \<open>None\<close> when the row has no key.\<close>

definition row_key ::
  "(string \<Rightarrow> 'v pyobj option) \<Rightarrow> ('v \<Rightarrow> string option) \<Rightarrow> string \<Rightarrow> string \<Rightarrow> string option" where
  "row_key loads str_utf8 row key_name =
     (case loads row of
        None \<Rightarrow> None
      | Some row_dict \<Rightarrow>
          (case PyDict_GetItemString row_dict key_name of
             None \<Rightarrow> None
           | Some key_obj \<Rightarrow>
               (case str_utf8 key_obj of
                  None \<Rightarrow> None
                | Some key_cstr \<Rightarrow> Some (c_str key_cstr))))"

text \<open>No call fails while the key of a row is taken: the row decodes and its key field, if
  it has one, converts.\<close>

definition decodes ::
  "(string \<Rightarrow> 'v pyobj option) \<Rightarrow> ('v \<Rightarrow> string option) \<Rightarrow> string \<Rightarrow> string \<Rightarrow> bool" where
  "decodes loads str_utf8 key_name row =
     (case loads row of
        None \<Rightarrow> False
      | Some obj \<Rightarrow>
          (case PyDict_GetItemString obj key_name of
             None \<Rightarrow> True
           | Some key_obj \<Rightarrow> str_utf8 key_obj \<noteq> None))"

text \<open>The rows of a list that have a key, each with its key, in order: a row that is not a
  dictionary or has no key field is left out.\<close>

definition keyed_rows ::
  "(string \<Rightarrow> 'v pyobj option) \<Rightarrow> ('v \<Rightarrow> string option) \<Rightarrow> string \<Rightarrow> string list \<Rightarrow>
   (string \<times> string) list" where
  "keyed_rows loads str_utf8 key_name rs =
     List.map_filter (\<lambda>r. map_option (\<lambda>k. (k, r)) (row_key loads str_utf8 r key_name)) rs"

text \<open>The table after the build phase has stored the keyed rows \<open>S\<close> (keys pairwise
  distinct): every entry is found by the walk from its hash slot and holds one row of \<open>S\<close>,
  and every key of \<open>S\<close> has an entry.\<close>

definition table_inv :: "HashEntry option list \<Rightarrow> (string \<times> string) list \<Rightarrow> bool" where
  "table_inv t S \<longleftrightarrow>
     length t = HASH_SIZE
     \<and> (\<forall>i<HASH_SIZE. \<forall>e. t ! i = Some e \<longrightarrow>
           find_slot t (key e) (hidx (key e)) 0 = SlotFound i
           \<and> (\<exists>r. (key e, r) \<in> set S \<and> rows e = [r]))
     \<and> (\<forall>(k, r)\<in>set S. \<exists>i<HASH_SIZE. \<exists>e. t ! i = Some e \<and> key e = k)"

text \<open>The encoded merge of an inner and an outer row: \<open>PyDict_Copy\<close> of the inner
  dictionary, \<open>PyDict_Update\<close> with the outer one, \<open>dumps\<close>.\<close>

definition merged_row ::
  "(string \<Rightarrow> 'v pyobj option) \<Rightarrow> ((string \<times> 'v) list \<Rightarrow> string option) \<Rightarrow> string \<Rightarrow> string \<Rightarrow>
   string option" where
  "merged_row loads dumps inner_row outer_row =
     (case (loads inner_row, loads outer_row) of
        (Some (PyDict a), Some (PyDict b)) \<Rightarrow> dumps (PyDict_Update a b)
      | _ \<Rightarrow> None)"

text \<open>The pairs the join is to emit, in emission order: for each outer row with a key, the
  keyed inner rows with the same key.\<close>

definition join_pairs ::
  "(string \<Rightarrow> 'v pyobj option) \<Rightarrow> ('v \<Rightarrow> string option) \<Rightarrow> string \<Rightarrow> string \<Rightarrow>
   string list \<Rightarrow> string list \<Rightarrow> (string \<times> string) list" where
  "join_pairs loads str_utf8 inner_key outer_key inner_rows outer_rows =
     concat (map (\<lambda>out_row.
       case row_key loads str_utf8 out_row outer_key of
         None \<Rightarrow> []
       | Some k \<Rightarrow> map (\<lambda>(k', in_row). (in_row, out_row))
           (filter (\<lambda>(k', in_row). k' = k) (keyed_rows loads str_utf8 inner_key inner_rows)))
       outer_rows)"

text \<open>\<open>emit_row\<close> on a pair of rows.\<close>

definition emit_pair ::
  "(string \<Rightarrow> 'v pyobj option) \<Rightarrow> ((string \<times> 'v) list \<Rightarrow> string option) \<Rightarrow> int \<Rightarrow>
   string \<times> string \<Rightarrow> out_state \<Rightarrow> out_state" where
  "emit_pair loads dumps bs p st =
     (case loads (snd p) of
        Some (PyDict od) \<Rightarrow> emit_row loads dumps bs od (fst p) st
      | _ \<Rightarrow> st)"

section \<open>The hash join over pickled pages (src/hashjoin.c)\<close>

text \<open>The second join operator of the repository takes its rows as pages of \<open>PAGE_SIZE\<close>
  bytes holding a pickled dictionary, and joins on integer keys. \<open>pickle_loads\<close>,
  \<open>pickle_dumps\<close> and \<open>as_long\<close> stand for \<open>pickle.loads\<close>, \<open>pickle.dumps\<close> and for
  \<open>PyLong_Check\<close> with the value of the integer (\<open>None\<close> when the object is not an
  \<open>int\<close>). The error indicator is as in the join over JSON rows: this file does not clear
  it either. Reference counts are not part of the model.\<close>

abbreviation (input) HASH_TABLE_SIZE :: nat where "HASH_TABLE_SIZE \<equiv> 1024"

type_synonym int64 = "64 word"

text \<open>\<open>unpickle_page\<close>: a page whose first byte is zero is empty (\<open>NULL\<close>, no error);
  otherwise \<open>pickle\<close> is imported and \<open>loads\<close> called on the \<open>PAGE_SIZE\<close> bytes of the
  page.\<close>

definition unpickle_page ::
  "(byte list \<Rightarrow> 'v pyobj option) \<Rightarrow> byte list \<Rightarrow> bool \<Rightarrow> 'v pyobj option \<times> bool" where
  "unpickle_page pickle_loads page_data err =
     (if page_data ! 0 = 0 then (None, err)
      else py_call pickle_loads (take PAGE_SIZE page_data) err)"

text \<open>\<open>get_dict_int\<close>: \<open>-1\<close> when the object is not a dictionary, has no such field, or
  the field is not an \<open>int\<close>; otherwise \<open>PyLong_AsLongLong\<close>, which returns \<open>-1\<close> and sets
  the error indicator when the integer does not fit \<open>long long\<close>.\<close>

definition get_dict_int ::
  "('v \<Rightarrow> int option) \<Rightarrow> 'v pyobj \<Rightarrow> string \<Rightarrow> bool \<Rightarrow> int64 \<times> bool" where
  "get_dict_int as_long dict k err =
     (case PyDict_GetItemString dict k of
        None \<Rightarrow> (- 1, err)
      | Some val \<Rightarrow>
          (case as_long val of
             None \<Rightarrow> (- 1, err)
           | Some n \<Rightarrow>
               if - (2 ^ 63) \<le> n \<and> n < 2 ^ 63 then (word_of_int n, err) else (- 1, True)))"

text \<open>An entry holds its key and the row object; a slot whose \<open>row\<close> is \<open>NULL\<close> is \<open>None\<close>.
  (The fields are \<open>key\<close> and \<open>row\<close> in the source.)\<close>

record 'v HashEntry_p =
  ekey :: int64
  erow :: "'v pyobj"

text \<open>\<open>size_t idx = key % HASH_TABLE_SIZE\<close>: the remainder of the signed division, which has
  the sign of \<open>key\<close>, converted to \<open>size_t\<close>. For a negative remainder the index is far
  beyond the table.\<close>

definition c_rem :: "int \<Rightarrow> int \<Rightarrow> int" where
  "c_rem a b = sgn a * (\<bar>a\<bar> mod \<bar>b\<bar>)"

definition slot_of :: "int64 \<Rightarrow> nat" where
  "slot_of k = unat (word_of_int (c_rem (sint k) (int HASH_TABLE_SIZE)) :: 64 word)"

text \<open>Linear probing: the loop has no bound, and runs forever on a full table that does not
  hold the key. \<open>None\<close> is that outcome.\<close>

partial_function (option) probe_slot ::
  "'v HashEntry_p option list \<Rightarrow> int64 \<Rightarrow> nat \<Rightarrow> nat option" where
  "probe_slot table k idx =
     (case table ! idx of
        None \<Rightarrow> Some idx
      | Some e \<Rightarrow>
          if ekey e = k then Some idx
          else probe_slot table k ((idx + 1) mod HASH_TABLE_SIZE))"

text \<open>An access to \<open>table[idx]\<close> with \<open>idx\<close> beyond the table is a fault of the program.\<close>

datatype fault = OutOfBounds

text \<open>Build phase, one inner page; the state is the error indicator and the table. A key
  already in the table keeps its first row.\<close>

definition build_row_p ::
  "(byte list \<Rightarrow> 'v pyobj option) \<Rightarrow> ('v \<Rightarrow> int option) \<Rightarrow> string \<Rightarrow>
   bool \<times> 'v HashEntry_p option list \<Rightarrow> byte list \<Rightarrow>
   (fault + bool \<times> 'v HashEntry_p option list) option" where
  "build_row_p pickle_loads as_long inner_key_name st page =
     (let (err, table) = st;
          (row, err1) = unpickle_page pickle_loads page err
      in case row of
           None \<Rightarrow> Some (Inr (err1, table))
         | Some row \<Rightarrow>
             (let (key, err2) = get_dict_int as_long row inner_key_name err1
              in if key = - 1 then Some (Inr (err2, table))
                 else if HASH_TABLE_SIZE \<le> slot_of key then Some (Inl OutOfBounds)
                 else
                   (case probe_slot table key (slot_of key) of
                      None \<Rightarrow> None
                    | Some idx \<Rightarrow>
                        (case table ! idx of
                           None \<Rightarrow> Some (Inr (err2, table[idx := Some \<lparr>ekey = key, erow = row\<rparr>]))
                         | Some e \<Rightarrow> Some (Inr (err2, table))))))"






subsection \<open>The join over pages as a list of matching pairs\<close>

text \<open>The key of a page as both phases take it with the indicator clear (\<open>None\<close> when the
  page is skipped), and the pages on which no call fails while the key is taken.\<close>

definition page_key ::
  "(byte list \<Rightarrow> 'v pyobj option) \<Rightarrow> ('v \<Rightarrow> int option) \<Rightarrow> string \<Rightarrow> byte list \<Rightarrow> int64 option" where
  "page_key pickle_loads as_long key_name page =
     (case fst (unpickle_page pickle_loads page False) of
        None \<Rightarrow> None
      | Some row \<Rightarrow>
          (let key = fst (get_dict_int as_long row key_name False)
           in if key = - 1 then None else Some key))"


definition keyed_pages ::
  "(byte list \<Rightarrow> 'v pyobj option) \<Rightarrow> ('v \<Rightarrow> int option) \<Rightarrow> string \<Rightarrow> byte list list \<Rightarrow>
   (int64 \<times> byte list) list" where
  "keyed_pages pickle_loads as_long key_name ps =
     List.map_filter (\<lambda>p. map_option (\<lambda>k. (k, p)) (page_key pickle_loads as_long key_name p)) ps"



definition join_pairs_p ::
  "(byte list \<Rightarrow> 'v pyobj option) \<Rightarrow> ('v \<Rightarrow> int option) \<Rightarrow> string \<Rightarrow> string \<Rightarrow>
   byte list list \<Rightarrow> byte list list \<Rightarrow> (byte list \<times> byte list) list" where
  "join_pairs_p pickle_loads as_long inner_key outer_key inner_pages outer_pages =
     concat (map (\<lambda>out_page.
       case page_key pickle_loads as_long outer_key out_page of
         None \<Rightarrow> []
       | Some k \<Rightarrow> map (\<lambda>(k', in_page). (in_page, out_page))
           (filter (\<lambda>(k', in_page). k' = k)
              (keyed_pages pickle_loads as_long inner_key inner_pages)))
       outer_pages)"

subsection \<open>The inputs of the contract\<close>



section \<open>Properties of the storage engine\<close>

subsection \<open>Record layout\<close>

lemma length_le32 [simp]: "length (le32 w) = 4"
  by (simp add: le32_def)

lemma rd32_le32 [simp]: "rd32 (le32 w @ xs) 0 = w"
  unfolding rd32_def le32_def
  apply simp
  apply (rule bit_word_eqI)
  apply (auto simp add: bit_simps)
  subgoal for n by (cases "n < 24") auto
  done

lemma rd32_skip: "length pre = k \<Longrightarrow> rd32 (pre @ xs) (k + i) = rd32 xs i"
  by (auto simp add: rd32_def nth_append)

lemma rd32_at_4 [simp]: "rd32 (le32 a @ le32 w @ xs) 4 = w"
  using rd32_skip [of "le32 a" 4 "le32 w @ xs" 0] by simp

lemma rd32_at_8 [simp]: "rd32 (le32 a @ le32 b @ le32 w @ xs) 8 = w"
  using rd32_skip [of "le32 a @ le32 b" 8 "le32 w @ xs" 0] by simp

lemma rd32_le32_only [simp]: "rd32 (le32 w) 0 = w"
  using rd32_le32 [of w "[]"] by simp

lemma rd32_at_8_only [simp]: "rd32 (le32 a @ le32 b @ le32 w) 8 = w"
  using rd32_at_8 [of a b w "[]"] by simp

lemma length_fill [simp]: "length (fill ind n bs) = n"
  by (simp add: fill_def)

lemma fill_exact [simp]: "length bs = n \<Longrightarrow> fill ind n bs = bs"
  by (simp add: fill_def)

lemma length_enc [simp]:
  "length (enc (CommitRec t m)) = COMMIT_REC_SIZE"
  "length d = PAGE_SIZE \<Longrightarrow> length (enc (PageRec t p d)) = PAGE_REC_SIZE"
  by simp_all


subsection \<open>Null handles at the exported entry points\<close>

text \<open>Claim C10. The exported \<open>read_page\<close> called with a null transaction pointer returns a
  page of 4096 zero bytes and leaves the whole state (WAL, its file offset, data file, cache)
  as it was; the exported \<open>write_page\<close> called with a null transaction pointer or a null data
  pointer returns with the state unchanged.\<close>

theorem C10_null_handles:
  "read_page s None pid = (replicate PAGE_SIZE 0, s)
   \<and> write_page s None pid data_ptr = Inr s
   \<and> write_page s txn_ptr pid None = Inr s"
  by (simp add: read_page_def write_page_def split: option.splits)

subsection \<open>The checkpoint horizon\<close>

lemma oldest_reader_snapshot_eq:
  "oldest_reader_snapshot s =
     (if reader_snapshots s = [] then 0 else Min (set (reader_snapshots s)))"
proof (cases "reader_snapshots s")
  case Nil
  then show ?thesis by (simp add: oldest_reader_snapshot_def)
next
  case (Cons x xs)
  have m: "(\<lambda>x m. if x < m then x else m) = (min :: u64 \<Rightarrow> u64 \<Rightarrow> u64)"
    by (auto simp: fun_eq_iff min_def)
  have "fold min (x # xs) (- 1 :: u64) = Min (set ((- 1) # x # xs))"
    by (rule Min.set_eq_fold [symmetric])
  also have "\<dots> = Min (insert (- 1) (set (x # xs)))"
    by simp
  also have "\<dots> = min (- 1) (Min (set (x # xs)))"
    by (rule Min_insert) simp_all
  also have "\<dots> = Min (set (x # xs))"
    by (rule min.absorb2) (rule word_n1_ge)
  finally show ?thesis
    using Cons by (simp add: oldest_reader_snapshot_def m)
qed

lemma checkpoint_no_readers:
  "checkpoint_int (s\<lparr>reader_snapshots := []\<rparr>) = s\<lparr>reader_snapshots := [], wal_pos := 0\<rparr>"
  by (simp add: checkpoint_int_def oldest_reader_snapshot_def checkpoint_loop.simps [of _ _ 0 0])

text \<open>Claim C4, as stated, fails: with no reader registered the horizon is 0, not the end
  of the log. Here a fresh engine commits one empty transaction, so the log holds one commit
  record (12 bytes); the horizon is 0.\<close>

theorem C4_horizon_counterexample:
  "let s = commit_tx (snd (begin_write_txn (waldb_open (init_state [] [] (\<lambda>i. 0)))))
             \<lparr>tx_id = 1\<rparr>
   in reader_snapshots s = [] \<and> length (wal s) = 12
      \<and> oldest_reader_snapshot s \<noteq> of_nat (length (wal s))"
  by (simp add: Let_def commit_tx_def commit_pages_def begin_write_txn_def waldb_open_def wal_recover_def
      init_state_def wal_commit_def sys_write_def oldest_reader_snapshot_def rd_cnt_def
      recover_loop.simps [of _ "[]"])

text \<open>Claim C4, amended. The horizon used by \<open>checkpoint\<close> is the minimum of the registered
  reader snapshots when at least one reader is registered, and 0 when none is; a checkpoint
  with no registered reader therefore leaves the data file as it is.\<close>

theorem C4_horizon:
  "oldest_reader_snapshot s =
     (if reader_snapshots s = [] then 0 else Min (set (reader_snapshots s)))
   \<and> db (checkpoint_int (s\<lparr>reader_snapshots := []\<rparr>)) = db s"
  by (simp add: oldest_reader_snapshot_eq checkpoint_no_readers)

subsection \<open>Transaction ids\<close>

lemma begin_writes_eq:
  "begin_writes n s = map (\<lambda>k. next_tx_id s + of_nat k) [0..<n]"
proof (induction n arbitrary: s)
  case 0
  then show ?case by simp
next
  case (Suc n)
  have "map (\<lambda>k. next_tx_id s + of_nat k) [0..<Suc n]
        = next_tx_id s # map (\<lambda>k. next_tx_id s + of_nat k) (map Suc [0..<n])"
    unfolding map_Suc_upt by (simp add: upt_conv_Cons del: upt_Suc)
  then show ?case
    by (simp add: begin_write_txn_def Suc.IH ac_simps del: upt_Suc)
qed

lemma begin_writes_init:
  "begin_writes n (init_state d w ind) = map of_nat [1..<Suc n]"
proof -
  have "map (\<lambda>k. (1::u32) + of_nat k) [0..<n] = map of_nat (map Suc [0..<n])"
    by (simp add: ac_simps)
  then show ?thesis
    unfolding map_Suc_upt by (simp add: begin_writes_eq init_state_def del: upt_Suc)
qed

lemma u32_of_nat_strict_mono:
  "sorted_wrt (<) (map (of_nat :: nat \<Rightarrow> u32) [1..<Suc n])" if "n < 2 ^ 32"
proof -
  have "(of_nat i :: u32) < of_nat j" if "i < j" "j \<in> set [1..<Suc n]" for i j
  proof -
    from that \<open>n < 2 ^ 32\<close> have "i < 2 ^ 32" "j < 2 ^ 32"
      by auto
    then have "take_bit 32 i = i" "take_bit 32 j = j"
      by (simp_all add: take_bit_nat_eq_self)
    with \<open>i < j\<close> show ?thesis
      by (simp add: of_nat_word_less_iff)
  qed
  then have "sorted_wrt (\<lambda>i j. (of_nat i :: u32) < of_nat j) [1..<Suc n]"
    by (intro sorted_wrt_mono_rel [OF _ sorted_wrt_upt]) blast
  then show ?thesis
    by (simp only: sorted_wrt_map)
qed

text \<open>Claim C8, amended. In a process lifetime the first \<open>n\<close> calls of \<open>begin_write\<close>, for
  any \<open>n < 2^32\<close>, return the ids 1, 2, ..., n: all nonzero, strictly increasing and
  pairwise distinct. (\<open>next_tx_id\<close> is a \<open>uint32_t\<close>; see the counterexample for call number
  \<open>2^32\<close>.)\<close>

theorem C8_tx_ids:
  assumes "n < 2 ^ 32"
  shows "begin_writes n (init_state d w ind) = map of_nat [1..<Suc n]
    \<and> sorted_wrt (<) (begin_writes n (init_state d w ind))
    \<and> distinct (begin_writes n (init_state d w ind))
    \<and> 0 \<notin> set (begin_writes n (init_state d w ind))"
proof -
  let ?ids = "begin_writes n (init_state d w ind)"
  have e: "?ids = map of_nat [1..<Suc n]" by (rule begin_writes_init)
  have s: "sorted_wrt (<) ?ids" unfolding e by (rule u32_of_nat_strict_mono [OF assms])
  have d: "distinct ?ids" using s by (simp add: strict_sorted_iff)
  have z: "0 \<notin> set ?ids"
  proof
    assume "0 \<in> set ?ids"
    then obtain k where k: "1 \<le> k" "k \<le> n" "(of_nat k :: u32) = 0"
      unfolding e by (auto simp del: upt_Suc)
    have "unat (of_nat k :: u32) = k mod 2 ^ 32"
      by (simp add: unat_of_nat)
    also have "\<dots> = k"
      using k assms by simp
    finally show False
      using k by simp
  qed
  from e s d z show ?thesis by simp
qed

theorem C8_tx_ids_witness:
  "begin_writes 3 (init_state [] [] (\<lambda>i. 0)) = [1, 2, 3]
   \<and> distinct (begin_writes 3 (init_state [] [] (\<lambda>i. 0)))"
  using C8_tx_ids [of 3 "[]" "[]" "\<lambda>i. 0"] by (simp add: upt_conv_Cons)

text \<open>Claim C8, as stated, fails at the wrap-around of the 32-bit counter: call number
  \<open>2^32\<close> returns 0, and call number \<open>2^32 + 1\<close> returns 1 again, the id of the first
  call.\<close>

theorem C8_tx_ids_counterexample:
  "begin_writes (2 ^ 32 + 1) (init_state [] [] (\<lambda>i. 0)) ! (2 ^ 32 - 1) = 0
   \<and> begin_writes (2 ^ 32 + 1) (init_state [] [] (\<lambda>i. 0)) ! (2 ^ 32)
       = begin_writes (2 ^ 32 + 1) (init_state [] [] (\<lambda>i. 0)) ! 0"
proof -
  have n: "begin_writes m (init_state [] [] (\<lambda>i. 0)) ! k = 1 + of_nat k" if "k < m" for k m
    using that by (simp add: begin_writes_eq init_state_def del: upt_Suc)
  have a: "(1 :: u32) + of_nat (2 ^ 32 - 1) = 0"
    by simp
  have b: "(1 :: u32) + of_nat (2 ^ 32) = 1 + of_nat 0"
    by simp
  show ?thesis
    using n [of "2 ^ 32 - 1" "2 ^ 32 + 1"] n [of "2 ^ 32" "2 ^ 32 + 1"] n [of 0 "2 ^ 32 + 1"] a b
    by simp
qed

subsection \<open>Scanning a well-formed log\<close>

lemma rd_cnt_at: "n \<le> length x \<Longrightarrow> rd_cnt (pre @ x @ rest) (length pre) n = n"
  by (simp add: rd_cnt_def)

lemma rd_buf_at: "n \<le> length x \<Longrightarrow> rd_buf ind (pre @ x @ rest) (length pre) n = take n x"
  by (simp add: rd_buf_def)

lemma rd_cnt_eof: "length f \<le> off \<Longrightarrow> rd_cnt f off n = 0"
  by (simp add: rd_cnt_def)

lemma seek_back_4 [simp]: "seek_back (off + 4) 4 = off"
  by (simp add: seek_back_def)

lemma recover_loop_eof: "length f \<le> off \<Longrightarrow> recover_loop ind f off c d = (off, d)"
  by (subst recover_loop.simps) (simp add: rd_cnt_eof)

lemma recover_loop_commit:
  "recover_loop ind (pre @ enc (CommitRec t m) @ rest) (length pre) c d =
   recover_loop ind (pre @ enc (CommitRec t m) @ rest) (length pre + COMMIT_REC_SIZE)
     (if m = WAL_MAGIC_COMMIT \<and> t < MAX_TX then c(t := True) else c) d"
  apply (subst recover_loop.simps)
  apply (simp only: rd_cnt_at [of _ "enc (CommitRec t m)"] rd_buf_at [of _ "enc (CommitRec t m)"]
      length_enc Let_def seek_back_4)
  apply (simp add: cr_magic_def cr_tx_id_def)
  done

lemma recover_loop_page:
  assumes "length pg = PAGE_SIZE"
  shows "recover_loop ind (pre @ enc (PageRec t p pg) @ rest) (length pre) c d =
   recover_loop ind (pre @ enc (PageRec t p pg) @ rest) (length pre + PAGE_REC_SIZE) c
     (if t < MAX_TX \<and> c t then write_page_to_db d p pg else d)"
  apply (subst recover_loop.simps)
  apply (simp only: rd_cnt_at [of _ "enc (PageRec t p pg)"] rd_buf_at [of _ "enc (PageRec t p pg)"]
      length_enc(2) [OF assms] Let_def seek_back_4)
  apply (simp add: pr_tx_id_def pr_page_id_def pr_data_def assms)
  done


lemma encode_Cons [simp]: "encode (r # rs) = enc r @ encode rs"
  by (simp add: encode_def)

lemma encode_Nil [simp]: "encode [] = []"
  by (simp add: encode_def)

lemma encode_append [simp]: "encode (rs @ rs') = encode rs @ encode rs'"
  by (simp add: encode_def)

lemma recover_loop_step:
  assumes "wf_rec r"
  shows "recover_loop ind (pre @ enc r @ rest) (length pre) c d =
    recover_loop ind (pre @ enc r @ rest) (length pre + length (enc r))
      (marks [r] c) (replay [r] c d)"
proof (cases r)
  case (PageRec t p pg)
  with assms have l: "length pg = PAGE_SIZE" by simp
  from recover_loop_page [OF l, of ind pre t p rest c d] show ?thesis
    unfolding PageRec by (simp add: l)
next
  case (CommitRec t m)
  show ?thesis
    unfolding CommitRec using recover_loop_commit [of ind pre t m rest c d] by simp
qed

lemma marks_append: "marks (rs @ rs') c = marks rs' (marks rs c)"
  by (induction rs c rule: marks.induct) simp_all

lemma replay_append: "replay (rs @ rs') c d = replay rs' (marks rs c) (replay rs c d)"
  by (induction rs c d rule: replay.induct) simp_all

lemma recover_loop_encode:
  assumes "\<forall>r\<in>set rs. wf_rec r"
  shows "recover_loop ind (pre @ encode rs @ rest) (length pre) c d =
    recover_loop ind (pre @ encode rs @ rest) (length pre + length (encode rs))
      (marks rs c) (replay rs c d)"
  using assms
proof (induction rs arbitrary: pre c d)
  case Nil
  then show ?case by simp
next
  case (Cons r rs)
  have "recover_loop ind (pre @ encode (r # rs) @ rest) (length pre) c d =
        recover_loop ind (pre @ enc r @ (encode rs @ rest)) (length pre + length (enc r))
          (marks [r] c) (replay [r] c d)"
    using recover_loop_step [of r ind pre "encode rs @ rest" c d] Cons.prems by simp
  also have "\<dots> = recover_loop ind ((pre @ enc r) @ encode rs @ rest) (length (pre @ enc r))
          (marks [r] c) (replay [r] c d)"
    by simp
  also have "\<dots> = recover_loop ind ((pre @ enc r) @ encode rs @ rest)
          (length (pre @ enc r) + length (encode rs))
          (marks rs (marks [r] c)) (replay rs (marks [r] c) (replay [r] c d))"
    using Cons.prems by (intro Cons.IH) simp
  also have "\<dots> = recover_loop ind (pre @ encode (r # rs) @ rest)
          (length pre + length (encode (r # rs))) (marks (r # rs) c) (replay (r # rs) c d)"
    using marks_append [of "[r]" rs c] replay_append [of "[r]" rs c d]
    by (simp add: add.assoc)
  finally show ?case .
qed

lemma wal_recover_encode:
  assumes "\<forall>r\<in>set rs. wf_rec r" "wal s = encode rs"
  shows "wal_recover s = s\<lparr>wal_pos := length (wal s), db := replay rs (\<lambda>t. False) (db s)\<rparr>"
proof -
  have "recover_loop (indet s) (wal s) 0 (\<lambda>t. False) (db s)
        = (length (encode rs), replay rs (\<lambda>t. False) (db s))"
    using recover_loop_encode [OF assms(1), of "indet s" "[]" "[]" "\<lambda>t. False" "db s"]
    by (simp add: assms(2) recover_loop_eof)
  then show ?thesis
    by (simp add: wal_recover_def assms(2))
qed

subsection \<open>Recovery as a sequence of positioned writes\<close>

lemma apply_writes_Nil [simp]: "apply_writes [] d = d"
  by (simp add: apply_writes_def)



lemma length_sys_write [simp]:
  "length (sys_write f off bs) = max (length f) (off + length bs)"
  by (auto simp add: sys_write_def max_def min_def)



lemma covered_Cons [simp]:
  "covered ((off, bs) # ws) = {off..<off + length bs} \<union> covered ws"
  by (simp add: covered_def)

lemma covered_Nil [simp]: "covered [] = {}"
  by (simp add: covered_def)





subsection \<open>Recovery run twice\<close>







text \<open>Recovery leaves the log alone.\<close>

lemma wal_wal_recover [simp]: "wal (wal_recover s) = wal s"
  by (simp add: wal_recover_def split: prod.splits)








subsection \<open>The snapshot visibility scan\<close>

lemma sys_write_end [simp]: "sys_write f (length f) bs = f @ bs"
  by (simp add: sys_write_def)

lemma sys_write_empty [simp]: "sys_write [] 0 bs = bs"
  by (simp add: sys_write_def)

lemma wal_scan_committed_stop:
  "\<not> pos < snap \<Longrightarrow> wal_scan_committed ind f snap pos off c = (c, off)"
  by (subst wal_scan_committed.simps) simp

lemma wal_scan_committed_eof:
  "length f \<le> off \<Longrightarrow> wal_scan_committed ind f snap pos off c = (c, off)"
  by (subst wal_scan_committed.simps) (simp add: rd_cnt_eof)

lemma wal_scan_committed_step:
  assumes "wf_rec r" "pos < snap"
  shows "wal_scan_committed ind (pre @ enc r @ rest) snap pos (length pre) c =
    wal_scan_committed ind (pre @ enc r @ rest) snap (pos + int (length (enc r)))
      (length pre + length (enc r)) (marks [r] c)"
proof (cases r)
  case (PageRec t p pg)
  with assms have l: "length pg = PAGE_SIZE" by simp
  show ?thesis
    unfolding PageRec
    apply (subst wal_scan_committed.simps)
    apply (simp only: rd_cnt_at [of _ "enc (PageRec t p pg)"] rd_buf_at [of _ "enc (PageRec t p pg)"]
      length_enc(2) [OF l] Let_def seek_back_4)
    apply (simp add: assms(2))
    done
next
  case (CommitRec t m)
  show ?thesis
    unfolding CommitRec
    apply (subst wal_scan_committed.simps)
    apply (simp only: rd_cnt_at [of _ "enc (CommitRec t m)"] rd_buf_at [of _ "enc (CommitRec t m)"]
      length_enc Let_def seek_back_4)
    apply (simp add: assms(2) cr_magic_def cr_tx_id_def)
    done
qed

lemma enc_pos: "wf_rec r \<Longrightarrow> 0 < length (enc r)"
  by (cases r) simp_all

lemma wal_scan_committed_encode:
  assumes "\<forall>r\<in>set rs. wf_rec r" "pos + int (length (encode rs)) \<le> snap"
  shows "wal_scan_committed ind (pre @ encode rs @ rest) snap pos (length pre) c =
    wal_scan_committed ind (pre @ encode rs @ rest) snap (pos + int (length (encode rs)))
      (length pre + length (encode rs)) (marks rs c)"
  using assms
proof (induction rs arbitrary: pre pos c)
  case Nil
  then show ?case by simp
next
  case (Cons r rs)
  from Cons.prems have wf: "wf_rec r"
    by simp
  have "int (length (encode (r # rs))) = int (length (enc r)) + int (length (encode rs))"
    by simp
  with Cons.prems(2) enc_pos [OF wf] have lt: "pos < snap"
    by linarith
  have "wal_scan_committed ind (pre @ encode (r # rs) @ rest) snap pos (length pre) c =
        wal_scan_committed ind (pre @ enc r @ (encode rs @ rest)) snap (pos + int (length (enc r)))
          (length pre + length (enc r)) (marks [r] c)"
    using wal_scan_committed_step [OF wf lt, of ind pre "encode rs @ rest" c] by simp
  also have "\<dots> = wal_scan_committed ind ((pre @ enc r) @ encode rs @ rest) snap
          (pos + int (length (enc r))) (length (pre @ enc r)) (marks [r] c)"
    by simp
  also have "\<dots> = wal_scan_committed ind ((pre @ enc r) @ encode rs @ rest) snap
          (pos + int (length (enc r)) + int (length (encode rs)))
          (length (pre @ enc r) + length (encode rs)) (marks rs (marks [r] c))"
    using Cons.prems by (intro Cons.IH) simp_all
  also have "\<dots> = wal_scan_committed ind (pre @ encode (r # rs) @ rest) snap
          (pos + int (length (encode (r # rs)))) (length pre + length (encode (r # rs)))
          (marks (r # rs) c)"
    using marks_append [of "[r]" rs c] by (simp add: add.assoc)
  finally show ?case .
qed

lemma wal_scan_committed_prefix:
  assumes "\<forall>r\<in>set rs. wf_rec r" "snap = int (length (encode rs))"
  shows "wal_scan_committed ind (encode rs @ rest) snap 0 0 c = (marks rs c, length (encode rs))"
  using wal_scan_committed_encode [OF assms(1), of 0 snap ind "[]" rest c] assms(2)
  by (simp add: wal_scan_committed_stop)

lemma rd32_append_left: "i + 4 \<le> length a \<Longrightarrow> rd32 (a @ b) i = rd32 a i"
  by (simp add: rd32_def nth_append)

lemma drop_header [simp]: "drop 12 (le32 a @ le32 b @ le32 c @ xs) = xs"
  by simp

lemma wal_scan_back_stop:
  "\<not> pos > int PAGE_REC_SIZE \<Longrightarrow> wal_scan_back ind f pid c pos off = (None, off)"
  by (subst wal_scan_back.simps) simp

text \<open>The reverse pass over a log of one page record followed by one commit record, from
  the end of the log: the only window it reads starts 12 bytes into the page record.\<close>

lemma wal_scan_back_page_commit:
  assumes "length pg = PAGE_SIZE"
  shows "wal_scan_back ind (enc (PageRec t p pg) @ enc (CommitRec t' m)) pid c 4120 off =
    (if rd32 pg 0 = WAL_PAGE \<and> rd32 pg 8 = pid \<and> rd32 pg 4 < MAX_TX \<and> c (rd32 pg 4)
     then Some (drop 12 pg @ enc (CommitRec t' m)) else None, 4120)"
proof -
  let ?f = "enc (PageRec t p pg) @ enc (CommitRec t' m)"
  have w: "rd_buf ind ?f 12 PAGE_REC_SIZE = pg @ enc (CommitRec t' m)"
    by (simp add: rd_buf_def assms)
  have n: "rd_cnt ?f 12 PAGE_REC_SIZE = PAGE_REC_SIZE"
    by (simp add: rd_cnt_def assms)
  have f: "pr_type (pg @ enc (CommitRec t' m)) = rd32 pg 0"
    "pr_tx_id (pg @ enc (CommitRec t' m)) = rd32 pg 4"
    "pr_page_id (pg @ enc (CommitRec t' m)) = rd32 pg 8"
    unfolding pr_type_def pr_tx_id_def pr_page_id_def
    by (rule rd32_append_left, simp add: assms)+
  have d: "pr_data (pg @ enc (CommitRec t' m)) = drop 12 pg @ enc (CommitRec t' m)"
    by (simp add: pr_data_def assms)
  show ?thesis
    apply (subst wal_scan_back.simps)
    apply (simp only: Let_def)
    apply (simp add: w n f d wal_scan_back_stop del: enc.simps)
    done
qed

lemma sint_4120 [simp]: "sint (4120 :: u64) = 4120"
  by simp

lemma wal_read_page_page_commit:
  assumes "length pg = PAGE_SIZE" "wal s = enc (PageRec t p pg) @ enc (CommitRec t' m)"
  shows "wal_read_page s pid 4120 =
    (if rd32 pg 0 = WAL_PAGE \<and> rd32 pg 8 = pid \<and> rd32 pg 4 < MAX_TX
        \<and> marks [PageRec t p pg, CommitRec t' m] (\<lambda>t. False) (rd32 pg 4)
     then Some (drop 12 pg @ enc (CommitRec t' m)) else None, s\<lparr>wal_pos := 4120\<rparr>)"
proof -
  have wf: "\<forall>r\<in>set [PageRec t p pg, CommitRec t' m]. wf_rec r"
    by (simp add: assms)
  have e: "encode [PageRec t p pg, CommitRec t' m] @ [] = wal s"
    by (simp add: assms)
  have l: "int (length (encode [PageRec t p pg, CommitRec t' m])) = 4120"
    by (simp add: assms)
  have fw: "wal_scan_committed (indet s) (wal s) 4120 0 0 (\<lambda>t. False)
        = (marks [PageRec t p pg, CommitRec t' m] (\<lambda>t. False), 4120)"
    using wal_scan_committed_prefix [OF wf, of 4120 "indet s" "[]" "\<lambda>t. False"] l
    unfolding e by (simp add: assms(1))
  show ?thesis
    unfolding wal_read_page_def sint_4120 fw
    by (simp only: assms(2) wal_scan_back_page_commit [OF assms(1)] prod.case Let_def)
qed

text \<open>Claim C2 at a failing input. The log holds one page record for page 0 (transaction 1,
  every byte \<open>0x01\<close>) followed by the commit record of transaction 1; the data file is empty
  and the cache has no entry for page 0. A reader whose snapshot is the end of the log
  (offset 4120) reads page 0 as all zeros: the reverse pass steps back by the size of a page
  record from the snapshot, reads one window at offset 12, and never looks at offset 0.\<close>

theorem C2_latest_wins_fails:
  "let s = init_state [] (enc (PageRec 1 0 (replicate PAGE_SIZE 1)) @ enc (CommitRec 1 WAL_MAGIC_COMMIT)) ind
   in find_cached_page (cache s) 0 = None
      \<and> fst (read_page_int s \<lparr>snapshot = 4120\<rparr> 0 (replicate PAGE_SIZE 0)) = replicate PAGE_SIZE 0"
proof -
  let ?s = "init_state [] (enc (PageRec 1 0 (replicate PAGE_SIZE 1)) @ enc (CommitRec 1 WAL_MAGIC_COMMIT)) ind"
  have w: "wal ?s = enc (PageRec 1 0 (replicate PAGE_SIZE 1)) @ enc (CommitRec 1 WAL_MAGIC_COMMIT)"
    by (simp add: init_state_def)
  have t: "rd32 (replicate PAGE_SIZE 1) 0 \<noteq> WAL_PAGE"
    by (simp add: rd32_def)
  have r: "wal_read_page ?s 0 4120 = (None, ?s\<lparr>wal_pos := 4120\<rparr>)"
    by (subst wal_read_page_page_commit [OF _ w]) (simp_all add: t)
  have c: "cache ?s = []" "db ?s = []"
    by (simp_all add: init_state_def)
  show ?thesis
    by (simp add: Let_def read_page_int_def c r read_page_from_db_def del: enc.simps)
qed

subsection \<open>Commit, crash and reopen\<close>

lemma write_page_int_fresh:
  "cache s = [] \<Longrightarrow> length d = PAGE_SIZE \<Longrightarrow> write_page_int s tx pid d =
     Inr (s\<lparr>cache := [\<lparr>page_id = pid, owner_tx = tx_id tx, dirty = True, data = d\<rparr>]\<rparr>)"
  by (simp add: write_page_int_def get_or_create_cached_page_def)

lemma commit_pages_empty: "cache s = [] \<Longrightarrow> commit_pages s tx = s"
  by (simp add: commit_pages_def)

lemma commit_pages_single:
  assumes "cache s = [\<lparr>page_id = pid, owner_tx = tx_id tx, dirty = True, data = d\<rparr>]"
    "length d = PAGE_SIZE" "wal_pos s = length (wal s)"
  shows "commit_pages s tx =
     s\<lparr>wal := wal s @ enc (PageRec (tx_id tx) pid d), wal_pos := length (wal s) + PAGE_REC_SIZE,
       cache := [\<lparr>page_id = pid, owner_tx = tx_id tx, dirty = False, data = d\<rparr>]\<rparr>"
  by (simp add: commit_pages_def commit_step_def wal_append_page_def assms)

lemma wal_commit_append:
  "wal_pos s = length (wal s) \<Longrightarrow> wal_commit s tx =
     s\<lparr>wal := wal s @ enc (CommitRec (tx_id tx) WAL_MAGIC_COMMIT),
       wal_pos := length (wal s) + COMMIT_REC_SIZE\<rparr>"
  by (simp add: wal_commit_def)

lemma waldb_open_fresh:
  "waldb_open (init_state [] [] ind) = (init_state [] [] ind)\<lparr>opened := True\<rparr>"
  by (simp add: waldb_open_def wal_recover_def init_state_def recover_loop_eof)

text \<open>Claim C1 at a failing input, the scenario "simple durability": a fresh database, one
  write transaction that writes page 0 (every byte \<open>0x01\<close>) and commits, then a crash and a
  reopen. The log then holds the page record followed by the commit record of transaction 1.
  Recovery consults \<open>committed[tx_id]\<close> when it meets the page record, which is before it
  has seen the commit record that follows, so it writes nothing: the data file is still
  empty, and a reader begun after the reopen reads page 0 as all zeros.\<close>

theorem C1_durability_fails:
  "let s0 = waldb_open (init_state [] [] ind);
       (w, s1) = begin_write_txn s0
   in case write_page_int s1 w 0 (replicate PAGE_SIZE 1) of
        Inl e \<Rightarrow> False
      | Inr s2 \<Rightarrow>
          (let s3 = commit_tx s2 w;
               s4 = reopen_after_crash ind' s3;
               (r, s5) = begin_read_txn s4
           in wal s4 = enc (PageRec 1 0 (replicate PAGE_SIZE 1)) @ enc (CommitRec 1 WAL_MAGIC_COMMIT)
              \<and> db s4 = []
              \<and> fst (read_page_int s5 r 0 (replicate PAGE_SIZE 0)) = replicate PAGE_SIZE 0)"
proof -
  define D :: "byte list" where "D = replicate PAGE_SIZE 1"
  define W where "W = enc (PageRec 1 0 D) @ enc (CommitRec 1 WAL_MAGIC_COMMIT)"
  define s1 where "s1 = (init_state [] [] ind)\<lparr>opened := True, next_tx_id := 2\<rparr>"
  define s2 where "s2 = s1\<lparr>cache := [\<lparr>page_id = 0, owner_tx = 1, dirty = True, data = D\<rparr>]\<rparr>"
  have lD: "length D = PAGE_SIZE"
    by (simp add: D_def)
  have b: "begin_write_txn (waldb_open (init_state [] [] ind)) = (\<lparr>tx_id = 1\<rparr>, s1)"
    unfolding waldb_open_fresh by (simp add: begin_write_txn_def s1_def init_state_def)
  have w: "write_page_int s1 \<lparr>tx_id = 1\<rparr> 0 D = Inr s2"
    by (subst write_page_int_fresh) (simp_all add: s1_def s2_def init_state_def lD)
  have p: "commit_pages s2 \<lparr>tx_id = 1\<rparr> =
      s2\<lparr>wal := enc (PageRec 1 0 D), wal_pos := PAGE_REC_SIZE,
         cache := [\<lparr>page_id = 0, owner_tx = 1, dirty = False, data = D\<rparr>]\<rparr>"
    by (subst commit_pages_single [where pid = 0 and d = D])
       (simp_all add: s2_def s1_def init_state_def lD)
  have c: "wal (commit_tx s2 \<lparr>tx_id = 1\<rparr>) = W" "db (commit_tx s2 \<lparr>tx_id = 1\<rparr>) = []"
    unfolding commit_tx_def p
    by (subst wal_commit_append; simp add: lD W_def s2_def s1_def init_state_def)+
  define s4 where "s4 = (init_state [] W ind')\<lparr>wal_pos := 4120, opened := True\<rparr>"
  have wf: "\<forall>r\<in>set [PageRec 1 0 D, CommitRec 1 WAL_MAGIC_COMMIT]. wf_rec r"
    by (simp add: lD)
  have "wal_recover (init_state [] W ind') = (init_state [] W ind')\<lparr>wal_pos := 4120, db := []\<rparr>"
    by (subst wal_recover_encode [OF wf]) (simp_all add: init_state_def W_def lD)
  then have r: "reopen_after_crash ind' (commit_tx s2 \<lparr>tx_id = 1\<rparr>) = s4"
    by (simp add: reopen_after_crash_def c waldb_open_def s4_def init_state_def)
  define s5 where "s5 = s4\<lparr>reader_snapshots := [4120]\<rparr>"
  have br: "begin_read_txn s4 = (\<lparr>snapshot = 4120\<rparr>, s5)"
    by (simp add: begin_read_txn_def s4_def s5_def init_state_def W_def lD)
  have t: "rd32 D 0 \<noteq> WAL_PAGE"
    by (simp add: rd32_def D_def)
  have "wal s5 = enc (PageRec 1 0 D) @ enc (CommitRec 1 WAL_MAGIC_COMMIT)"
    by (simp add: s5_def s4_def init_state_def W_def)
  from wal_read_page_page_commit [OF lD this, of 0]
  have rp: "wal_read_page s5 0 4120 = (None, s5\<lparr>wal_pos := 4120\<rparr>)"
    by (simp add: t)
  have c5: "cache s5 = []" "db s5 = []"
    by (simp_all add: s5_def s4_def init_state_def)
  have rd: "fst (read_page_int s5 \<lparr>snapshot = 4120\<rparr> 0 (replicate PAGE_SIZE 0)) = replicate PAGE_SIZE 0"
    by (simp add: read_page_int_def c5 rp read_page_from_db_def)
  have f4: "wal s4 = W" "db s4 = []"
    by (simp_all add: s4_def init_state_def)
  show ?thesis
    unfolding Let_def b prod.case D_def [symmetric] w sum.case r br
    using rd f4 by (simp add: W_def)
qed

subsection \<open>Checkpoint\<close>

lemma checkpoint_loop_stop:
  "\<not> pos < safe \<Longrightarrow> checkpoint_loop ind f safe pos off d = (off, d)"
  by (subst checkpoint_loop.simps) simp

lemma checkpoint_loop_step:
  assumes "wf_rec r" "pos < safe"
  shows "checkpoint_loop ind (pre @ enc r @ rest) safe pos (length pre) d =
    checkpoint_loop ind (pre @ enc r @ rest) safe (pos + int (length (enc r)))
      (length pre + length (enc r)) (flush [r] d)"
proof (cases r)
  case (PageRec t p pg)
  with assms have l: "length pg = PAGE_SIZE" by simp
  show ?thesis
    unfolding PageRec
    apply (subst checkpoint_loop.simps)
    apply (simp only: rd_cnt_at [of _ "enc (PageRec t p pg)"] rd_buf_at [of _ "enc (PageRec t p pg)"]
      length_enc(2) [OF l] Let_def seek_back_4)
    apply (simp add: assms(2) l pr_page_id_def pr_data_def)
    done
next
  case (CommitRec t m)
  show ?thesis
    unfolding CommitRec
    apply (subst checkpoint_loop.simps)
    apply (simp only: rd_cnt_at [of _ "enc (CommitRec t m)"] rd_buf_at [of _ "enc (CommitRec t m)"]
      length_enc Let_def seek_back_4)
    apply (simp add: assms(2))
    done
qed

lemma flush_append: "flush (rs @ rs') d = flush rs' (flush rs d)"
  by (induction rs d rule: flush.induct) simp_all

lemma checkpoint_loop_encode:
  assumes "\<forall>r\<in>set rs. wf_rec r" "pos + int (length (encode rs)) \<le> safe"
  shows "checkpoint_loop ind (pre @ encode rs @ rest) safe pos (length pre) d =
    checkpoint_loop ind (pre @ encode rs @ rest) safe (pos + int (length (encode rs)))
      (length pre + length (encode rs)) (flush rs d)"
  using assms
proof (induction rs arbitrary: pre pos d)
  case Nil
  then show ?case by simp
next
  case (Cons r rs)
  from Cons.prems have wf: "wf_rec r"
    by simp
  have "int (length (encode (r # rs))) = int (length (enc r)) + int (length (encode rs))"
    by simp
  with Cons.prems(2) enc_pos [OF wf] have lt: "pos < safe"
    by linarith
  have "checkpoint_loop ind (pre @ encode (r # rs) @ rest) safe pos (length pre) d =
        checkpoint_loop ind (pre @ enc r @ (encode rs @ rest)) safe (pos + int (length (enc r)))
          (length pre + length (enc r)) (flush [r] d)"
    using checkpoint_loop_step [OF wf lt, of ind pre "encode rs @ rest" d] by simp
  also have "\<dots> = checkpoint_loop ind ((pre @ enc r) @ encode rs @ rest) safe
          (pos + int (length (enc r))) (length (pre @ enc r)) (flush [r] d)"
    by simp
  also have "\<dots> = checkpoint_loop ind ((pre @ enc r) @ encode rs @ rest) safe
          (pos + int (length (enc r)) + int (length (encode rs)))
          (length (pre @ enc r) + length (encode rs)) (flush rs (flush [r] d))"
    using Cons.prems by (intro Cons.IH) simp_all
  also have "\<dots> = checkpoint_loop ind (pre @ encode (r # rs) @ rest) safe
          (pos + int (length (encode (r # rs)))) (length pre + length (encode (r # rs)))
          (flush (r # rs) d)"
    using flush_append [of "[r]" rs d] by (simp add: add.assoc)
  finally show ?case .
qed

text \<open>A checkpoint whose horizon is the end of a well-formed prefix of the log writes every
  page record of that prefix, committed or not.\<close>

lemma checkpoint_loop_prefix:
  assumes "\<forall>r\<in>set rs. wf_rec r" "safe = int (length (encode rs))"
  shows "checkpoint_loop ind (encode rs @ rest) safe 0 0 d = (length (encode rs), flush rs d)"
  using checkpoint_loop_encode [OF assms(1), of 0 safe ind "[]" rest d] assms(2)
  by (simp add: checkpoint_loop_stop)

lemma sys_write_over [simp]: "length bs = length f \<Longrightarrow> sys_write f 0 bs = bs"
  by (simp add: sys_write_def)

text \<open>Claim C3 at a failing input. A write transaction stages page 0 and its commit is cut
  off after the page record has been appended and before the commit marker is written (the
  process dies between \<open>wal_append_page\<close> and \<open>wal_commit\<close>). After the restart the log holds
  that page record and no commit record at all. A reader begins (snapshot 4108, the end of
  the log) and a checkpoint runs: its horizon is 4108 and it writes the uncommitted page
  into the data file, which recovery had left empty.\<close>

theorem C3_checkpoint_writes_uncommitted:
  "let s0 = waldb_open (init_state [] [] ind);
       (w, s1) = begin_write_txn s0
   in case write_page_int s1 w 0 (replicate PAGE_SIZE 1) of
        Inl e \<Rightarrow> False
      | Inr s2 \<Rightarrow>
          (let s3 = commit_pages s2 w;
               s4 = reopen_after_crash ind' s3;
               (r, s5) = begin_read_txn s4;
               s6 = checkpoint_int s5
           in wal s6 = enc (PageRec 1 0 (replicate PAGE_SIZE 1))
              \<and> oldest_reader_snapshot s5 = 4108
              \<and> db s5 = []
              \<and> db s6 = replicate PAGE_SIZE 1)"
proof -
  define D :: "byte list" where "D = replicate PAGE_SIZE 1"
  define W where "W = enc (PageRec 1 0 D)"
  define s1 where "s1 = (init_state [] [] ind)\<lparr>opened := True, next_tx_id := 2\<rparr>"
  define s2 where "s2 = s1\<lparr>cache := [\<lparr>page_id = 0, owner_tx = 1, dirty = True, data = D\<rparr>]\<rparr>"
  have lD: "length D = PAGE_SIZE"
    by (simp add: D_def)
  have b: "begin_write_txn (waldb_open (init_state [] [] ind)) = (\<lparr>tx_id = 1\<rparr>, s1)"
    unfolding waldb_open_fresh by (simp add: begin_write_txn_def s1_def init_state_def)
  have w: "write_page_int s1 \<lparr>tx_id = 1\<rparr> 0 D = Inr s2"
    by (subst write_page_int_fresh) (simp_all add: s1_def s2_def init_state_def lD)
  have p: "commit_pages s2 \<lparr>tx_id = 1\<rparr> =
      s2\<lparr>wal := W, wal_pos := PAGE_REC_SIZE,
         cache := [\<lparr>page_id = 0, owner_tx = 1, dirty = False, data = D\<rparr>]\<rparr>"
    by (subst commit_pages_single [where pid = 0 and d = D])
       (simp_all add: s2_def s1_def init_state_def lD W_def)
  define s4 where "s4 = (init_state [] W ind')\<lparr>wal_pos := 4108, opened := True\<rparr>"
  have wf: "\<forall>r\<in>set [PageRec 1 0 D]. wf_rec r"
    by (simp add: lD)
  have "wal_recover (init_state [] W ind') = (init_state [] W ind')\<lparr>wal_pos := 4108, db := []\<rparr>"
    by (subst wal_recover_encode [OF wf]) (simp_all add: init_state_def W_def lD)
  then have r: "reopen_after_crash ind' (commit_pages s2 \<lparr>tx_id = 1\<rparr>) = s4"
    unfolding p
    by (simp add: reopen_after_crash_def waldb_open_def s4_def s2_def s1_def init_state_def)
  define s5 where "s5 = s4\<lparr>reader_snapshots := [4108]\<rparr>"
  have br: "begin_read_txn s4 = (\<lparr>snapshot = 4108\<rparr>, s5)"
    by (simp add: begin_read_txn_def s4_def s5_def init_state_def W_def lD)
  have o: "oldest_reader_snapshot s5 = 4108"
    by (simp add: oldest_reader_snapshot_def s5_def)
  have "checkpoint_loop ind' (encode [PageRec 1 0 D] @ []) 4108 0 0 [] =
        (length (encode [PageRec 1 0 D]), flush [PageRec 1 0 D] [])"
    by (rule checkpoint_loop_prefix [OF wf]) (simp add: lD)
  then have cl: "checkpoint_loop ind' W 4108 0 0 [] = (4108, D)"
    by (simp add: W_def lD write_page_to_db_def)
  have ck: "checkpoint_int s5 = s5\<lparr>wal_pos := 4108, db := D\<rparr>"
    unfolding checkpoint_int_def o
    by (simp add: s5_def s4_def init_state_def cl)
  have f: "wal s5 = W" "db s5 = []"
    by (simp_all add: s5_def s4_def init_state_def)
  show ?thesis
    unfolding Let_def b prod.case D_def [symmetric] w sum.case r br ck
    using o f by (simp add: W_def)
qed

subsection \<open>Uncommitted transactions\<close>

text \<open>Claim C5 at a failing input. Transaction 2 stages page 5 and its commit is cut off
  between the page record and the commit marker; the log never holds a commit record of
  transaction 2. After the restart the first write transaction (id 1 again) commits with no
  pages, which appends its commit record. A reader then asks for page 0: the reverse pass of
  the visibility scan reads its window 12 bytes into the page record of transaction 2, takes
  the first 12 payload bytes for a record header (type 1, transaction 1, page 0) and returns
  the remaining 4084 payload bytes of the uncommitted transaction, followed by the 12 bytes of
  the commit record.\<close>

theorem C5_uncommitted_bytes_visible:
  "let B = le32 1 @ le32 1 @ le32 0 @ replicate 4084 0xAA;
       s0 = waldb_open (init_state [] [] ind);
       (w1, s1) = begin_write_txn s0;
       (w2, s2) = begin_write_txn s1
   in case write_page_int s2 w2 5 B of
        Inl e \<Rightarrow> False
      | Inr s3 \<Rightarrow>
          (let s4 = commit_pages s3 w2;
               s5 = reopen_after_crash ind' s4;
               (w, s6) = begin_write_txn s5;
               s7 = commit_tx s6 w;
               (r, s8) = begin_read_txn s7
           in wal s8 = enc (PageRec 2 5 B) @ enc (CommitRec 1 WAL_MAGIC_COMMIT)
              \<and> db s8 = []
              \<and> fst (read_page_int s8 r 0 (replicate PAGE_SIZE 0))
                  = replicate 4084 0xAA @ enc (CommitRec 1 WAL_MAGIC_COMMIT))"
proof -
  define B :: "byte list" where "B = le32 1 @ le32 1 @ le32 0 @ replicate 4084 0xAA"
  define W where "W = enc (PageRec 2 5 B)"
  define W' where "W' = enc (PageRec 2 5 B) @ enc (CommitRec 1 WAL_MAGIC_COMMIT)"
  define s1 where "s1 = (init_state [] [] ind)\<lparr>opened := True, next_tx_id := 2\<rparr>"
  define s2 where "s2 = (init_state [] [] ind)\<lparr>opened := True, next_tx_id := 3\<rparr>"
  define s3 where "s3 = s2\<lparr>cache := [\<lparr>page_id = 5, owner_tx = 2, dirty = True, data = B\<rparr>]\<rparr>"
  have lB: "length B = PAGE_SIZE"
    by (simp add: B_def)
  have hB: "rd32 B 0 = 1" "rd32 B 4 = 1" "rd32 B 8 = 0" "drop 12 B = replicate 4084 0xAA"
    by (simp_all add: B_def)
  have b1: "begin_write_txn (waldb_open (init_state [] [] ind)) = (\<lparr>tx_id = 1\<rparr>, s1)"
    unfolding waldb_open_fresh by (simp add: begin_write_txn_def s1_def init_state_def)
  have b2: "begin_write_txn s1 = (\<lparr>tx_id = 2\<rparr>, s2)"
    by (simp add: begin_write_txn_def s1_def s2_def init_state_def)
  have w: "write_page_int s2 \<lparr>tx_id = 2\<rparr> 5 B = Inr s3"
    by (subst write_page_int_fresh) (simp_all add: s2_def s3_def init_state_def lB)
  have p: "commit_pages s3 \<lparr>tx_id = 2\<rparr> =
      s3\<lparr>wal := W, wal_pos := PAGE_REC_SIZE,
         cache := [\<lparr>page_id = 5, owner_tx = 2, dirty = False, data = B\<rparr>]\<rparr>"
    by (subst commit_pages_single [where pid = 5 and d = B])
       (simp_all add: s3_def s2_def init_state_def lB W_def)
  define s5 where "s5 = (init_state [] W ind')\<lparr>wal_pos := 4108, opened := True\<rparr>"
  have wf: "\<forall>r\<in>set [PageRec 2 5 B]. wf_rec r"
    by (simp add: lB)
  have "wal_recover (init_state [] W ind') = (init_state [] W ind')\<lparr>wal_pos := 4108, db := []\<rparr>"
    by (subst wal_recover_encode [OF wf]) (simp_all add: init_state_def W_def lB)
  then have r: "reopen_after_crash ind' (commit_pages s3 \<lparr>tx_id = 2\<rparr>) = s5"
    unfolding p
    by (simp add: reopen_after_crash_def waldb_open_def s5_def s3_def s2_def init_state_def)
  define s6 where "s6 = s5\<lparr>next_tx_id := 2\<rparr>"
  have b3: "begin_write_txn s5 = (\<lparr>tx_id = 1\<rparr>, s6)"
    by (simp add: begin_write_txn_def s5_def s6_def init_state_def)
  define s7 where "s7 = s6\<lparr>wal := W', wal_pos := 4120\<rparr>"
  have c: "commit_tx s6 \<lparr>tx_id = 1\<rparr> = s7"
    unfolding commit_tx_def
    by (subst commit_pages_empty, simp add: s6_def s5_def init_state_def,
        subst wal_commit_append)
       (simp_all add: s7_def s6_def s5_def init_state_def W_def W'_def lB)
  define s8 where "s8 = s7\<lparr>reader_snapshots := [4120]\<rparr>"
  have br: "begin_read_txn s7 = (\<lparr>snapshot = 4120\<rparr>, s8)"
    by (simp add: begin_read_txn_def s8_def s7_def s6_def s5_def init_state_def W'_def lB)
  have w8: "wal s8 = enc (PageRec 2 5 B) @ enc (CommitRec 1 WAL_MAGIC_COMMIT)"
    by (simp add: s8_def s7_def W'_def)
  from wal_read_page_page_commit [OF lB w8, of 0]
  have rp: "wal_read_page s8 0 4120 =
      (Some (replicate 4084 0xAA @ enc (CommitRec 1 WAL_MAGIC_COMMIT)), s8\<lparr>wal_pos := 4120\<rparr>)"
    by (simp add: hB)
  have c8: "cache s8 = []" "db s8 = []"
    by (simp_all add: s8_def s7_def s6_def s5_def init_state_def)
  have rd: "fst (read_page_int s8 \<lparr>snapshot = 4120\<rparr> 0 (replicate PAGE_SIZE 0))
      = replicate 4084 0xAA @ enc (CommitRec 1 WAL_MAGIC_COMMIT)"
    by (simp add: read_page_int_def c8 rp del: enc.simps)
  show ?thesis
    unfolding Let_def B_def [symmetric] b1 b2 prod.case w sum.case r b3 c br
    using rd w8 c8 by simp
qed

lemma sint_of_nat_u64: "n < 2 ^ 63 \<Longrightarrow> sint (of_nat n :: u64) = int n"
  by (simp add: signed_of_nat signed_take_bit_int_eq_self)

lemma marks_iff:
  "marks rs c t \<longleftrightarrow> c t \<or> (t < MAX_TX \<and> (\<exists>r\<in>set rs. valid_commit_of t r))"
  by (induction rs c rule: marks.induct) auto

lemma replay_skip:
  "\<not> marks rs c t \<Longrightarrow> replay rs c d = replay (filter (\<lambda>r. \<not> is_page_of t r) rs) c d"
proof (induction rs c d rule: replay.induct)
  case (1 c d)
  then show ?case by simp
next
  case (2 t' m rs c d)
  then show ?case by simp
next
  case (3 t' p pg rs c d)
  from "3.prems" have "\<not> c t"
    by (simp add: marks_iff)
  with 3 show ?case
    by auto
qed

lemma wf_filter: "\<forall>r\<in>set rs. wf_rec r \<Longrightarrow> \<forall>r\<in>set (filter P rs). wf_rec r"
  by simp

subsection \<open>Commit records with a wrong magic\<close>

text \<open>The test of the magic itself does what it is meant to do. On a well-formed log in
  which no commit record of transaction \<open>t\<close> carries the right magic, recovery leaves the
  data file as it would if the page records of \<open>t\<close> were not in the log, and the forward
  pass of the visibility scan does not mark \<open>t\<close> committed.\<close>

lemma bad_magic_not_marked:
  assumes wf: "\<forall>r\<in>set (rs1 @ rs2). wf_rec r"
    and bad: "\<forall>r\<in>set (rs1 @ rs2). \<not> valid_commit_of t r"
    and log: "wal s = encode (rs1 @ rs2)"
    and snap: "length (encode rs1) < 2 ^ 63" "snap = (of_nat (length (encode rs1)) :: u64)"
  shows "db (wal_recover s)
           = db (wal_recover (s\<lparr>wal := encode (filter (\<lambda>r. \<not> is_page_of t r) (rs1 @ rs2))\<rparr>))
    \<and> \<not> fst (wal_scan_committed (indet s) (wal s) (sint snap) 0 0 (\<lambda>t. False)) t"
proof -
  let ?rs = "rs1 @ rs2"
  have nm: "\<not> marks rs (\<lambda>t. False) t" if "set rs \<subseteq> set ?rs" for rs
    using bad that by (auto simp add: marks_iff)
  have 1: "db (wal_recover s)
           = db (wal_recover (s\<lparr>wal := encode (filter (\<lambda>r. \<not> is_page_of t r) ?rs)\<rparr>))"
  proof -
    have "db (wal_recover s) = replay ?rs (\<lambda>t. False) (db s)"
      by (subst wal_recover_encode [OF wf log]) simp
    also have "\<dots> = replay (filter (\<lambda>r. \<not> is_page_of t r) ?rs) (\<lambda>t. False) (db s)"
      by (rule replay_skip) (rule nm, simp)
    also have "\<dots> = db (wal_recover (s\<lparr>wal := encode (filter (\<lambda>r. \<not> is_page_of t r) ?rs)\<rparr>))"
      by (subst wal_recover_encode [OF wf_filter [OF wf]]) simp_all
    finally show ?thesis .
  qed
  have wf1: "\<forall>r\<in>set rs1. wf_rec r"
    using wf by simp
  have ss: "sint snap = int (length (encode rs1))"
    unfolding snap(2) by (rule sint_of_nat_u64 [OF snap(1)])
  have fw: "wal_scan_committed (indet s) (wal s) (sint snap) 0 0 (\<lambda>t. False)
        = (marks rs1 (\<lambda>t. False), length (encode rs1))"
    using wal_scan_committed_prefix [OF wf1 ss, of "indet s" "encode rs2" "\<lambda>t. False"]
    by (simp add: log)
  have 2: "\<not> fst (wal_scan_committed (indet s) (wal s) (sint snap) 0 0 (\<lambda>t. False)) t"
    unfolding fw by (simp add: nm)
  from 1 2 show ?thesis by blast
qed

text \<open>The reverse pass over a log of a commit record, a page record and a commit record,
  from the end of the log: the only window it reads starts at the payload of the page
  record.\<close>

lemma wal_scan_back_commit_page_commit:
  assumes "length pg = PAGE_SIZE"
  shows "wal_scan_back ind (enc (CommitRec t0 m0) @ enc (PageRec t p pg) @ enc (CommitRec t' m))
           pid c 4132 off =
    (if rd32 pg 0 = WAL_PAGE \<and> rd32 pg 8 = pid \<and> rd32 pg 4 < MAX_TX \<and> c (rd32 pg 4)
     then Some (drop 12 pg @ enc (CommitRec t' m)) else None, 4132)"
proof -
  let ?f = "enc (CommitRec t0 m0) @ enc (PageRec t p pg) @ enc (CommitRec t' m)"
  have w: "rd_buf ind ?f 24 PAGE_REC_SIZE = pg @ enc (CommitRec t' m)"
    by (simp add: rd_buf_def assms)
  have n: "rd_cnt ?f 24 PAGE_REC_SIZE = PAGE_REC_SIZE"
    by (simp add: rd_cnt_def assms)
  have f: "pr_type (pg @ enc (CommitRec t' m)) = rd32 pg 0"
    "pr_tx_id (pg @ enc (CommitRec t' m)) = rd32 pg 4"
    "pr_page_id (pg @ enc (CommitRec t' m)) = rd32 pg 8"
    unfolding pr_type_def pr_tx_id_def pr_page_id_def
    by (rule rd32_append_left, simp add: assms)+
  have d: "pr_data (pg @ enc (CommitRec t' m)) = drop 12 pg @ enc (CommitRec t' m)"
    by (simp add: pr_data_def assms)
  show ?thesis
    apply (subst wal_scan_back.simps)
    apply (simp only: Let_def)
    apply (simp add: w n f d wal_scan_back_stop del: enc.simps)
    done
qed

lemma sint_4132 [simp]: "sint (4132 :: u64) = 4132"
  by simp

lemma wal_read_page_commit_page_commit:
  assumes "length pg = PAGE_SIZE"
    "wal s = enc (CommitRec t0 m0) @ enc (PageRec t p pg) @ enc (CommitRec t' m)"
  shows "wal_read_page s pid 4132 =
    (if rd32 pg 0 = WAL_PAGE \<and> rd32 pg 8 = pid \<and> rd32 pg 4 < MAX_TX
        \<and> marks [CommitRec t0 m0, PageRec t p pg, CommitRec t' m] (\<lambda>t. False) (rd32 pg 4)
     then Some (drop 12 pg @ enc (CommitRec t' m)) else None, s\<lparr>wal_pos := 4132\<rparr>)"
proof -
  have wf: "\<forall>r\<in>set [CommitRec t0 m0, PageRec t p pg, CommitRec t' m]. wf_rec r"
    by (simp add: assms)
  have e: "encode [CommitRec t0 m0, PageRec t p pg, CommitRec t' m] @ [] = wal s"
    by (simp add: assms)
  have l: "int (length (encode [CommitRec t0 m0, PageRec t p pg, CommitRec t' m])) = 4132"
    by (simp add: assms)
  have fw: "wal_scan_committed (indet s) (wal s) 4132 0 0 (\<lambda>t. False)
        = (marks [CommitRec t0 m0, PageRec t p pg, CommitRec t' m] (\<lambda>t. False), 4132)"
    using wal_scan_committed_prefix [OF wf, of 4132 "indet s" "[]" "\<lambda>t. False"] l
    unfolding e by (simp add: assms(1))
  show ?thesis
    unfolding wal_read_page_def sint_4132 fw
    by (simp only: assms(2) wal_scan_back_commit_page_commit [OF assms(1)] prod.case Let_def)
qed

text \<open>Claim C6 at a failing input. Transaction 1 commits with no pages; transaction 2 writes
  page 5 and commits; then the magic of the commit record of transaction 2 is damaged on
  disk (\<open>0xDEADBEEF\<close>), and the engine is restarted. The log is the commit record of
  transaction 1, the page record of transaction 2 and the commit record of transaction 2
  with the wrong magic, 4132 bytes. Recovery replays nothing and the forward pass of the
  visibility scan does not mark transaction 2. A reader with the end of the log as its
  snapshot asks for page 0: the reverse pass reads its only window at offset 24, the payload
  of the page record of transaction 2, takes the first 12 payload bytes for a record header
  (type 1, transaction 1, page 0), finds transaction 1 committed, and returns the remaining
  4084 payload bytes of transaction 2 followed by the 12 bytes of its commit record. The
  page record of the transaction whose commit record has the wrong magic is visible.\<close>

theorem C6_bad_magic_visible:
  "let B = le32 1 @ le32 1 @ le32 0 @ replicate 4084 0xAA;
       s0 = waldb_open (init_state [] [] ind);
       (w1, s1) = begin_write_txn s0;
       s2 = commit_tx s1 w1;
       (w2, s3) = begin_write_txn s2
   in case write_page_int s3 w2 5 B of
        Inl e \<Rightarrow> False
      | Inr s4 \<Rightarrow>
          (let s5 = commit_tx s4 w2;
               s6 = s5\<lparr>wal := take 4128 (wal s5) @ le32 0xDEADBEEF\<rparr>;
               s7 = reopen_after_crash ind' s6;
               (r, s8) = begin_read_txn s7
           in wal s5 = encode [CommitRec 1 WAL_MAGIC_COMMIT, PageRec 2 5 B, CommitRec 2 WAL_MAGIC_COMMIT]
              \<and> wal s8 = encode [CommitRec 1 WAL_MAGIC_COMMIT, PageRec 2 5 B, CommitRec 2 0xDEADBEEF]
              \<and> db s8 = []
              \<and> \<not> fst (wal_scan_committed (indet s8) (wal s8) (sint (snapshot r)) 0 0 (\<lambda>t. False)) 2
              \<and> fst (read_page_int s8 r 0 (replicate PAGE_SIZE 0))
                  = drop 12 B @ enc (CommitRec 2 0xDEADBEEF)
              \<and> drop 12 B = replicate 4084 0xAA)"
proof -
  define B :: "byte list" where "B = le32 1 @ le32 1 @ le32 0 @ replicate 4084 0xAA"
  define W1 where "W1 = enc (CommitRec 1 WAL_MAGIC_COMMIT)"
  define W2 where "W2 = enc (CommitRec 1 WAL_MAGIC_COMMIT) @ enc (PageRec 2 5 B)"
  define W3 where "W3 = enc (CommitRec 1 WAL_MAGIC_COMMIT) @ enc (PageRec 2 5 B)
                        @ enc (CommitRec 2 WAL_MAGIC_COMMIT)"
  define W where "W = enc (CommitRec 1 WAL_MAGIC_COMMIT) @ enc (PageRec 2 5 B)
                        @ enc (CommitRec 2 0xDEADBEEF)"
  define s1 where "s1 = (init_state [] [] ind)\<lparr>opened := True, next_tx_id := 2\<rparr>"
  define s2 where "s2 = s1\<lparr>wal := W1, wal_pos := 12\<rparr>"
  define s3 where "s3 = s2\<lparr>next_tx_id := 3\<rparr>"
  define s4 where "s4 = s3\<lparr>cache := [\<lparr>page_id = 5, owner_tx = 2, dirty = True, data = B\<rparr>]\<rparr>"
  have lB: "length B = PAGE_SIZE"
    by (simp add: B_def)
  have hB: "rd32 B 0 = 1" "rd32 B 4 = 1" "rd32 B 8 = 0" "drop 12 B = replicate 4084 0xAA"
    by (simp_all add: B_def)
  have b1: "begin_write_txn (waldb_open (init_state [] [] ind)) = (\<lparr>tx_id = 1\<rparr>, s1)"
    unfolding waldb_open_fresh by (simp add: begin_write_txn_def s1_def init_state_def)
  have c1: "commit_tx s1 \<lparr>tx_id = 1\<rparr> = s2"
    unfolding commit_tx_def
    by (subst commit_pages_empty, simp add: s1_def init_state_def, subst wal_commit_append)
       (simp_all add: s2_def s1_def init_state_def W1_def)
  have b2: "begin_write_txn s2 = (\<lparr>tx_id = 2\<rparr>, s3)"
    by (simp add: begin_write_txn_def s1_def s2_def s3_def init_state_def)
  have w: "write_page_int s3 \<lparr>tx_id = 2\<rparr> 5 B = Inr s4"
    by (subst write_page_int_fresh) (simp_all add: s1_def s2_def s3_def s4_def init_state_def lB)
  have p: "commit_pages s4 \<lparr>tx_id = 2\<rparr> =
      s4\<lparr>wal := W2, wal_pos := 4120,
         cache := [\<lparr>page_id = 5, owner_tx = 2, dirty = False, data = B\<rparr>]\<rparr>"
    by (subst commit_pages_single [where pid = 5 and d = B])
       (simp_all add: s4_def s3_def s2_def s1_def init_state_def lB W1_def W2_def)
  have c2: "wal (commit_tx s4 \<lparr>tx_id = 2\<rparr>) = W3" "db (commit_tx s4 \<lparr>tx_id = 2\<rparr>) = []"
    unfolding commit_tx_def p
    by (subst wal_commit_append;
        simp add: lB W2_def W3_def s4_def s3_def s2_def s1_def init_state_def)+
  have cut: "take 4128 W3 @ le32 0xDEADBEEF = W"
    by (simp add: W3_def W_def lB)
  define s7 where "s7 = (init_state [] W ind')\<lparr>wal_pos := 4132, opened := True\<rparr>"
  have wf: "\<forall>r\<in>set [CommitRec 1 WAL_MAGIC_COMMIT, PageRec 2 5 B, CommitRec 2 0xDEADBEEF]. wf_rec r"
    by (simp add: lB)
  have "wal_recover (init_state [] W ind') = (init_state [] W ind')\<lparr>wal_pos := 4132, db := []\<rparr>"
    by (subst wal_recover_encode [OF wf]) (simp_all add: init_state_def W_def lB)
  then have r: "reopen_after_crash ind'
       ((commit_tx s4 \<lparr>tx_id = 2\<rparr>)\<lparr>wal := take 4128 (wal (commit_tx s4 \<lparr>tx_id = 2\<rparr>)) @ le32 0xDEADBEEF\<rparr>)
       = s7"
    by (simp add: reopen_after_crash_def c2 cut waldb_open_def s7_def init_state_def)
  define s8 where "s8 = s7\<lparr>reader_snapshots := [4132]\<rparr>"
  have br: "begin_read_txn s7 = (\<lparr>snapshot = 4132\<rparr>, s8)"
    by (simp add: begin_read_txn_def s7_def s8_def init_state_def W_def lB)
  have w8: "wal s8 = enc (CommitRec 1 WAL_MAGIC_COMMIT) @ enc (PageRec 2 5 B)
                        @ enc (CommitRec 2 0xDEADBEEF)"
    by (simp add: s8_def s7_def init_state_def W_def)
  from wal_read_page_commit_page_commit [OF lB w8, of 0]
  have rp: "wal_read_page s8 0 4132 =
      (Some (drop 12 B @ enc (CommitRec 2 0xDEADBEEF)), s8\<lparr>wal_pos := 4132\<rparr>)"
    by (simp add: hB)
  have c8: "cache s8 = []" "db s8 = []"
    by (simp_all add: s8_def s7_def init_state_def)
  have rd: "fst (read_page_int s8 \<lparr>snapshot = 4132\<rparr> 0 (replicate PAGE_SIZE 0))
      = drop 12 B @ enc (CommitRec 2 0xDEADBEEF)"
    by (simp add: read_page_int_def c8 rp del: enc.simps)
  have e: "encode [CommitRec 1 WAL_MAGIC_COMMIT, PageRec 2 5 B, CommitRec 2 0xDEADBEEF] @ [] = wal s8"
    by (simp add: w8)
  have l: "int (length (encode [CommitRec 1 WAL_MAGIC_COMMIT, PageRec 2 5 B, CommitRec 2 0xDEADBEEF])) = 4132"
    by (simp add: lB)
  have fw: "wal_scan_committed (indet s8) (wal s8) 4132 0 0 (\<lambda>t. False)
        = (marks [CommitRec 1 WAL_MAGIC_COMMIT, PageRec 2 5 B, CommitRec 2 0xDEADBEEF] (\<lambda>t. False), 4132)"
    using wal_scan_committed_prefix [OF wf, of 4132 "indet s8" "[]" "\<lambda>t. False"] l
    unfolding e by (simp add: lB)
  have nm: "\<not> fst (wal_scan_committed (indet s8) (wal s8) (sint (4132 :: u64)) 0 0 (\<lambda>t. False)) 2"
    unfolding sint_4132 fw by simp
  have w5: "wal (commit_tx s4 \<lparr>tx_id = 2\<rparr>)
        = encode [CommitRec 1 WAL_MAGIC_COMMIT, PageRec 2 5 B, CommitRec 2 WAL_MAGIC_COMMIT]"
    "wal s8 = encode [CommitRec 1 WAL_MAGIC_COMMIT, PageRec 2 5 B, CommitRec 2 0xDEADBEEF]"
    by (simp_all add: c2 W3_def w8)
  show ?thesis
    unfolding Let_def B_def [symmetric] b1 prod.case c1 b2 w sum.case r br
    using rd w5 c8 nm hB(4) by (simp only: ReaderTxn.simps simp_thms)
qed

section \<open>Properties of the hash join over JSON rows\<close>

subsection \<open>Linear probing\<close>

lemma find_slot_Found:
  "find_slot t k s n = SlotFound i \<Longrightarrow> i < HASH_SIZE \<and> (\<exists>e. t ! i = Some e \<and> key e = k)"
proof (induction t k s n rule: find_slot.induct)
  case (1 t k s n)
  let ?idx = "(s + n) mod HASH_SIZE"
  from "1.prems" obtain e' where e': "t ! ?idx = Some e'"
    by (subst (asm) find_slot.simps) (auto simp add: Let_def split: option.splits)
  show ?case
  proof (cases "key e' = k")
    case True
    with "1.prems" e' have "i = ?idx"
      by (subst (asm) find_slot.simps) (simp add: Let_def)
    with True e' show ?thesis by simp
  next
    case False
    with "1.prems" e' have nf: "\<not> HASH_SIZE \<le> Suc n"
      and rec: "find_slot t k s (Suc n) = SlotFound i"
      by (subst (asm) find_slot.simps, simp add: Let_def split: if_splits)+
    show ?thesis
      using "1.IH" [OF refl e' False nf rec] .
  qed
qed

lemma find_slot_Empty:
  "find_slot t k s n = SlotEmpty i \<Longrightarrow> i < HASH_SIZE \<and> t ! i = None"
proof (induction t k s n rule: find_slot.induct)
  case (1 t k s n)
  let ?idx = "(s + n) mod HASH_SIZE"
  show ?case
  proof (cases "t ! ?idx")
    case None
    with "1.prems" have "i = ?idx"
      by (subst (asm) find_slot.simps) (simp add: Let_def)
    with None show ?thesis by simp
  next
    case (Some e')
    with "1.prems" have nk: "key e' \<noteq> k" and nf: "\<not> HASH_SIZE \<le> Suc n"
      and rec: "find_slot t k s (Suc n) = SlotEmpty i"
      by (subst (asm) find_slot.simps, simp add: Let_def split: if_splits)+
    show ?thesis
      using "1.IH" [OF refl Some nk nf rec] .
  qed
qed

text \<open>Filling an empty slot does not disturb the walk to a key that is found.\<close>

lemma find_slot_fill_other:
  "find_slot t k s n = SlotFound i \<Longrightarrow> t ! j = None \<Longrightarrow>
     find_slot (t[j := Some e]) k s n = SlotFound i"
proof (induction t k s n rule: find_slot.induct)
  case (1 t k s n)
  let ?idx = "(s + n) mod HASH_SIZE"
  from "1.prems" obtain e' where e': "t ! ?idx = Some e'"
    by (subst (asm) find_slot.simps) (auto simp add: Let_def split: option.splits)
  with "1.prems"(2) have ne: "?idx \<noteq> j" by auto
  then have same: "t[j := Some e] ! ?idx = Some e'"
    using e' by simp
  show ?case
  proof (cases "key e' = k")
    case True
    with "1.prems"(1) e' have "i = ?idx"
      by (subst (asm) find_slot.simps) (simp add: Let_def)
    with True same show ?thesis
      by (subst find_slot.simps) (simp add: Let_def)
  next
    case False
    with "1.prems"(1) e' have nf: "\<not> HASH_SIZE \<le> Suc n"
      and rec: "find_slot t k s (Suc n) = SlotFound i"
      by (subst (asm) find_slot.simps, simp add: Let_def split: if_splits)+
    have "find_slot (t[j := Some e]) k s (Suc n) = SlotFound i"
      using "1.IH" [OF refl e' False nf rec "1.prems"(2)] .
    with False same nf show ?thesis
      by (subst find_slot.simps) (simp add: Let_def)
  qed
qed

text \<open>Filling the empty slot a walk ends at makes the walk find the key there.\<close>

lemma find_slot_fill_self:
  "find_slot t k s n = SlotEmpty i \<Longrightarrow> i < length t \<Longrightarrow>
     find_slot (t[i := Some \<lparr>key = k, rows = r\<rparr>]) k s n = SlotFound i"
proof (induction t k s n rule: find_slot.induct)
  case (1 t k s n)
  let ?idx = "(s + n) mod HASH_SIZE"
  let ?t' = "t[i := Some \<lparr>key = k, rows = r\<rparr>]"
  from find_slot_Empty [OF "1.prems"(1)] have iN: "t ! i = None" by simp
  show ?case
  proof (cases "t ! ?idx")
    case None
    with "1.prems"(1) have "i = ?idx"
      by (subst (asm) find_slot.simps) (simp add: Let_def)
    with "1.prems"(2) show ?thesis
      by (subst find_slot.simps) (simp add: Let_def)
  next
    case (Some e')
    with iN have ne: "?idx \<noteq> i" by auto
    then have same: "?t' ! ?idx = Some e'"
      using Some by simp
    from "1.prems"(1) Some have nk: "key e' \<noteq> k" and nf: "\<not> HASH_SIZE \<le> Suc n"
      and rec: "find_slot t k s (Suc n) = SlotEmpty i"
      by (subst (asm) find_slot.simps, simp add: Let_def split: if_splits)+
    have "find_slot ?t' k s (Suc n) = SlotFound i"
      using "1.IH" [OF refl Some nk nf rec "1.prems"(2)] .
    with nk same nf show ?thesis
      by (subst find_slot.simps) (simp add: Let_def)
  qed
qed

text \<open>The walk looks at keys only: changing the rows of an entry changes nothing.\<close>

lemma find_slot_rows:
  "t ! j = Some e \<Longrightarrow> j < length t \<Longrightarrow>
     find_slot (t[j := Some (e\<lparr>rows := r\<rparr>)]) k s n = find_slot t k s n"
proof (induction t k s n rule: find_slot.induct)
  case (1 t k s n)
  let ?idx = "(s + n) mod HASH_SIZE"
  let ?t' = "t[j := Some (e\<lparr>rows := r\<rparr>)]"
  have sl: "?t' ! ?idx = map_option (\<lambda>x. if ?idx = j then e\<lparr>rows := r\<rparr> else x) (t ! ?idx)"
    using "1.prems" by (cases "?idx = j") (auto simp add: option.map_ident)
  show ?case
  proof (cases "t ! ?idx")
    case None
    with sl show ?thesis
      by (subst find_slot.simps, subst (2) find_slot.simps) (simp add: Let_def)
  next
    case (Some e')
    define e'' where "e'' = (if ?idx = j then e\<lparr>rows := r\<rparr> else e')"
    have k: "key e'' = key e'"
      using Some "1.prems" by (auto simp add: e''_def)
    have s': "?t' ! ?idx = Some e''"
      using sl Some by (simp add: e''_def)
    show ?thesis
    proof (cases "key e' = k \<or> HASH_SIZE \<le> Suc n")
      case True
      with Some s' k show ?thesis
        by (subst find_slot.simps, subst (2) find_slot.simps) (auto simp add: Let_def)
    next
      case False
      then have "find_slot ?t' k s (Suc n) = find_slot t k s (Suc n)"
        using "1.IH" [OF refl Some _ _ "1.prems"(1) "1.prems"(2)] by simp
      with False Some s' k show ?thesis
        by (subst find_slot.simps, subst (2) find_slot.simps) (simp add: Let_def)
    qed
  qed
qed

lemma table_inv_empty: "table_inv (replicate HASH_SIZE None) []"
  by (simp add: table_inv_def)

lemma find_slot_Full_step:
  "find_slot t k s n = TableFull \<Longrightarrow> n \<le> m \<Longrightarrow> m < HASH_SIZE \<Longrightarrow>
     \<exists>e. t ! ((s + m) mod HASH_SIZE) = Some e"
proof (induction t k s n rule: find_slot.induct)
  case (1 t k s n)
  let ?idx = "(s + n) mod HASH_SIZE"
  from "1.prems"(1) obtain e' where e': "t ! ?idx = Some e'" and nk: "key e' \<noteq> k"
    by (subst (asm) find_slot.simps) (auto simp add: Let_def split: option.splits if_splits)
  show ?case
  proof (cases "m = n")
    case True
    with e' show ?thesis by simp
  next
    case False
    with "1.prems" have lt: "Suc n \<le> m" and nf: "\<not> HASH_SIZE \<le> Suc n"
      by simp_all
    from "1.prems"(1) e' nk nf have rec: "find_slot t k s (Suc n) = TableFull"
      by (subst (asm) find_slot.simps) (simp add: Let_def)
    show ?thesis
      using "1.IH" [OF refl e' nk nf rec lt "1.prems"(3)] .
  qed
qed

lemma find_slot_Full_all:
  assumes "find_slot t k s 0 = TableFull" "j < HASH_SIZE"
  shows "\<exists>e. t ! j = Some e"
proof -
  define m where "m = (j + HASH_SIZE - s mod HASH_SIZE) mod HASH_SIZE"
  have m: "m < HASH_SIZE" by (simp add: m_def)
  have "(s + m) mod HASH_SIZE = (s mod HASH_SIZE + m) mod HASH_SIZE"
    by (simp add: mod_add_left_eq)
  also have "\<dots> = (s mod HASH_SIZE + (j + HASH_SIZE - s mod HASH_SIZE)) mod HASH_SIZE"
    unfolding m_def by (simp add: mod_add_right_eq)
  also have "s mod HASH_SIZE + (j + HASH_SIZE - s mod HASH_SIZE) = j + HASH_SIZE"
    by (simp add: less_imp_le_nat)
  also have "(j + HASH_SIZE) mod HASH_SIZE = j"
    using assms(2) by simp
  finally have "(s + m) mod HASH_SIZE = j" .
  with find_slot_Full_step [OF assms(1) _ m] show ?thesis
    by auto
qed


lemma table_inv_full:
  assumes "table_inv t S" "find_slot t k s 0 = TableFull"
  shows "HASH_SIZE \<le> card (fst ` set S)"
proof -
  define key_at where "key_at i = key (the (t ! i))" for i
  have occ: "\<exists>e. t ! i = Some e" if "i < HASH_SIZE" for i
    using find_slot_Full_all [OF assms(2) that] .
  have inj: "inj_on key_at {..<HASH_SIZE}"
  proof (rule inj_onI)
    fix i j assume i: "i \<in> {..<HASH_SIZE}" and j: "j \<in> {..<HASH_SIZE}" and eq: "key_at i = key_at j"
    from i occ obtain e where e: "t ! i = Some e" by auto
    from j occ obtain e' where e': "t ! j = Some e'" by auto
    from assms(1) i e have "find_slot t (key e) (hidx (key e)) 0 = SlotFound i"
      unfolding table_inv_def by auto
    moreover from assms(1) j e' have "find_slot t (key e') (hidx (key e')) 0 = SlotFound j"
      unfolding table_inv_def by auto
    moreover from eq e e' have "key e = key e'"
      by (simp add: key_at_def)
    ultimately show "i = j" by simp
  qed
  have sub: "key_at ` {..<HASH_SIZE} \<subseteq> fst ` set S"
  proof
    fix k assume "k \<in> key_at ` {..<HASH_SIZE}"
    then obtain i where i: "i < HASH_SIZE" "k = key_at i" by auto
    from occ [OF i(1)] obtain e where e: "t ! i = Some e" by auto
    with assms(1) i(1) obtain r where "(key e, r) \<in> set S"
      unfolding table_inv_def by blast
    with e i(2) show "k \<in> fst ` set S"
      by (force simp add: key_at_def)
  qed
  have "card (key_at ` {..<HASH_SIZE}) \<le> card (fst ` set S)"
    by (rule card_mono [OF _ sub]) simp
  with inj show ?thesis
    by (simp add: card_image)
qed

subsection \<open>The build phase\<close>

lemma keyed_rows_Nil [simp]: "keyed_rows loads str_utf8 kn [] = []"
  by (simp add: keyed_rows_def map_filter_simps)

lemma keyed_rows_Cons:
  "keyed_rows loads str_utf8 kn (r # rs) =
     (case row_key loads str_utf8 r kn of
        None \<Rightarrow> keyed_rows loads str_utf8 kn rs
      | Some k \<Rightarrow> (k, r) # keyed_rows loads str_utf8 kn rs)"
  by (simp add: keyed_rows_def map_filter_simps split: option.splits)

lemma py_call_clear [simp]:
  "py_call f x False = (f x, f x = None)"
  by (simp add: py_call_def split: option.splits)

lemma py_call_set [simp]: "py_call f x True = (None, True)"
  by (simp add: py_call_def)

lemma row_key_Some:
  "row_key loads str_utf8 row kn = Some k \<longleftrightarrow>
     (\<exists>d v ks. loads row = Some (PyDict d) \<and> map_of d kn = Some v \<and> str_utf8 v = Some ks
        \<and> k = c_str ks)"
proof (cases "loads row")
  case None
  then show ?thesis by (simp add: row_key_def)
next
  case (Some obj)
  then show ?thesis
    by (cases obj) (auto simp add: row_key_def split: option.splits)
qed

text \<open>With the indicator clear, a row that decodes goes through the build phase by its key.\<close>

lemma build_row_clear:
  assumes "decodes loads str_utf8 kn row"
  shows "build_row loads str_utf8 kn (False, t) row =
     (case row_key loads str_utf8 row kn of
        None \<Rightarrow> Inr (False, t)
      | Some k \<Rightarrow>
          (case find_slot t k (hidx k) 0 of
             TableFull \<Rightarrow> Inl ()
           | SlotEmpty idx \<Rightarrow> Inr (False, t[idx := Some \<lparr>key = k, rows = [row]\<rparr>])
           | SlotFound idx \<Rightarrow>
               Inr (False, t[idx := map_option (\<lambda>e. e\<lparr>rows := rows e @ [row]\<rparr>) (t ! idx)])))"
proof (cases "loads row")
  case None
  with assms show ?thesis by (simp add: decodes_def)
next
  case (Some obj)
  with assms show ?thesis
    by (cases obj)
       (auto simp add: decodes_def build_row_def row_key_def hidx_def split: option.splits)
qed

lemma build_row_new:
  assumes inv: "table_inv t S" and k: "row_key loads str_utf8 row kn = Some k"
    and new: "k \<notin> fst ` set S"
  shows "case build_row loads str_utf8 kn (False, t) row of
           Inr st' \<Rightarrow> \<not> fst st' \<and> table_inv (snd st') (S @ [(k, row)])
         | Inl u \<Rightarrow> HASH_SIZE \<le> card (fst ` set S)"
proof -
  from k have dec: "decodes loads str_utf8 kn row"
    unfolding row_key_Some by (auto simp add: decodes_def)
  note br = build_row_clear [OF dec, of t, unfolded k option.case]
  show ?thesis
  proof (cases "find_slot t k (hidx k) 0")
    case (SlotFound i)
    from find_slot_Found [OF this] obtain e where "i < HASH_SIZE" "t ! i = Some e" "key e = k"
      by blast
    with inv obtain r where "(k, r) \<in> set S"
      unfolding table_inv_def by blast
    with new show ?thesis by force
  next
    case TableFull
    from table_inv_full [OF inv this] TableFull show ?thesis
      by (simp add: br)
  next
    case (SlotEmpty i)
    from find_slot_Empty [OF this] have i: "i < HASH_SIZE" "t ! i = None"
      by simp_all
    from inv have len: "length t = HASH_SIZE"
      by (simp add: table_inv_def)
    define t' where "t' = t[i := Some \<lparr>key = k, rows = [row]\<rparr>]"
    have other: "t' ! j = t ! j" if "j \<noteq> i" for j
      using that by (simp add: t'_def)
    have self: "t' ! i = Some \<lparr>key = k, rows = [row]\<rparr>"
      using i len by (simp add: t'_def)
    have b: "find_slot t' (key e) (hidx (key e)) 0 = SlotFound j
             \<and> (\<exists>r. (key e, r) \<in> set (S @ [(k, row)]) \<and> rows e = [r])"
      if "j < HASH_SIZE" "t' ! j = Some e" for j e
    proof (cases "j = i")
      case True
      with that self have e: "e = \<lparr>key = k, rows = [row]\<rparr>" by simp
      have "find_slot t' k (hidx k) 0 = SlotFound i"
        unfolding t'_def using SlotEmpty i len by (intro find_slot_fill_self) simp_all
      with True e show ?thesis by simp
    next
      case False
      with that other have "t ! j = Some e" by simp
      with inv that(1) have f: "find_slot t (key e) (hidx (key e)) 0 = SlotFound j"
        and r: "\<exists>r. (key e, r) \<in> set S \<and> rows e = [r]"
        unfolding table_inv_def by blast+
      have "find_slot t' (key e) (hidx (key e)) 0 = SlotFound j"
        unfolding t'_def by (rule find_slot_fill_other [OF f i(2)])
      with r show ?thesis by auto
    qed
    have c: "\<exists>j<HASH_SIZE. \<exists>e. t' ! j = Some e \<and> key e = k'" if "(k', r) \<in> set (S @ [(k, row)])" for k' r
    proof (cases "(k', r) \<in> set S")
      case True
      with inv obtain j e where j: "j < HASH_SIZE" "t ! j = Some e" "key e = k'"
        unfolding table_inv_def by blast
      with i(2) have "j \<noteq> i" by auto
      with j other show ?thesis by auto
    next
      case False
      with that have "k' = k" by simp
      with self i(1) show ?thesis by auto
    qed
    have "table_inv t' (S @ [(k, row)])"
      unfolding table_inv_def
    proof (intro conjI allI impI ballI)
      show "length t' = HASH_SIZE"
        using len by (simp add: t'_def)
    next
      fix j e assume "j < HASH_SIZE" "t' ! j = Some e"
      from b [OF this] show "find_slot t' (key e) (hidx (key e)) 0 = SlotFound j"
        and "\<exists>r. (key e, r) \<in> set (S @ [(k, row)]) \<and> rows e = [r]"
        by simp_all
    next
      fix x assume x: "x \<in> set (S @ [(k, row)])"
      obtain k' r where xe: "x = (k', r)" by (cases x)
      from c [of k' r] x show "case x of (k', r) \<Rightarrow> \<exists>j<HASH_SIZE. \<exists>e. t' ! j = Some e \<and> key e = k'"
        unfolding xe by simp
    qed
    with SlotEmpty show ?thesis
      by (simp add: br t'_def)
  qed
qed

lemma build_table_inv:
  assumes "table_inv t S" "distinct (map fst (S @ keyed_rows loads str_utf8 kn rs))"
    and "\<forall>r\<in>set rs. decodes loads str_utf8 kn r"
  shows "case build_table loads str_utf8 kn (False, t) rs of
           Inr st' \<Rightarrow> \<not> fst st' \<and> table_inv (snd st') (S @ keyed_rows loads str_utf8 kn rs)
         | Inl u \<Rightarrow> HASH_SIZE < length (S @ keyed_rows loads str_utf8 kn rs)"
  using assms
proof (induction rs arbitrary: t S)
  case Nil
  then show ?case by simp
next
  case (Cons row rs)
  from Cons.prems(3) have dec: "decodes loads str_utf8 kn row"
    and decs: "\<forall>r\<in>set rs. decodes loads str_utf8 kn r"
    by simp_all
  show ?case
  proof (cases "row_key loads str_utf8 row kn")
    case None
    then have br: "build_row loads str_utf8 kn (False, t) row = Inr (False, t)"
      by (simp add: build_row_clear [OF dec])
    from None have kr: "keyed_rows loads str_utf8 kn (row # rs) = keyed_rows loads str_utf8 kn rs"
      by (simp add: keyed_rows_Cons)
    from Cons.IH [OF Cons.prems(1) _ decs] Cons.prems(2) show ?thesis
      unfolding kr by (simp add: br)
  next
    case (Some k)
    then have kr: "keyed_rows loads str_utf8 kn (row # rs) = (k, row) # keyed_rows loads str_utf8 kn rs"
      by (simp add: keyed_rows_Cons)
    from Cons.prems(2) have new: "k \<notin> fst ` set S"
      unfolding kr by auto
    show ?thesis
    proof (cases "build_row loads str_utf8 kn (False, t) row")
      case (Inl u)
      with build_row_new [OF Cons.prems(1) Some new] have "HASH_SIZE \<le> card (fst ` set S)"
        by simp
      also have "\<dots> \<le> length S"
        by (metis card_length length_map list.set_map)
      finally show ?thesis
        using Inl by (simp add: kr)
    next
      case (Inr st')
      with build_row_new [OF Cons.prems(1) Some new]
      have e: "\<not> fst st'" and inv': "table_inv (snd st') (S @ [(k, row)])"
        by simp_all
      from e have st': "st' = (False, snd st')"
        by (cases st') simp
      have "distinct (map fst ((S @ [(k, row)]) @ keyed_rows loads str_utf8 kn rs))"
        using Cons.prems(2) unfolding kr by simp
      from Cons.IH [OF inv' this decs] Inr show ?thesis
        unfolding kr by (subst (asm) st' [symmetric]) (auto split: sum.splits)
    qed
  qed
qed

subsection \<open>The probe phase\<close>

lemma filter_distinct_key:
  "distinct (map fst I) \<Longrightarrow> (k, r) \<in> set I \<Longrightarrow> filter (\<lambda>(k', i). k' = k) I = [(k, r)]"
proof (induction I)
  case Nil
  then show ?case by simp
next
  case (Cons a I)
  obtain k' r' where a: "a = (k', r')" by (cases a)
  show ?case
  proof (cases "k' = k")
    case True
    with Cons.prems a have "r' = r" and "\<forall>x\<in>set I. fst x \<noteq> k"
      by (auto simp add: image_iff)
    then have "filter (\<lambda>(k', i). k' = k) I = []"
      by (auto simp add: filter_empty_conv)
    with True a \<open>r' = r\<close> show ?thesis by simp
  next
    case False
    with Cons a show ?thesis by auto
  qed
qed

lemma filter_absent_key:
  "k \<notin> fst ` set I \<Longrightarrow> filter (\<lambda>(k', i). k' = k) I = []"
  by (auto simp add: filter_empty_conv image_iff)

text \<open>With the indicator clear, an outer row that decodes is probed by its key: the pairs
  it forms with the stored inner rows are emitted.\<close>

lemma probe_row_pairs:
  assumes inv: "table_inv t I" and dist: "distinct (map fst I)"
    and dec: "decodes loads str_utf8 okey row"
  shows "probe_row loads dumps str_utf8 okey bs t row (False, c, buf) =
     fold (emit_pair loads dumps bs)
       (case row_key loads str_utf8 row okey of
          None \<Rightarrow> []
        | Some k \<Rightarrow> map (\<lambda>(k', in_row). (in_row, row)) (filter (\<lambda>(k', in_row). k' = k) I))
       (False, c, buf)"
proof (cases "row_key loads str_utf8 row okey")
  case None
  have "probe_row loads dumps str_utf8 okey bs t row (False, c, buf) = (False, c, buf)"
  proof (cases "loads row")
    case None
    with dec show ?thesis by (simp add: decodes_def)
  next
    case (Some obj)
    with \<open>row_key loads str_utf8 row okey = None\<close> dec show ?thesis
      by (cases obj) (auto simp add: probe_row_def row_key_def decodes_def split: option.splits)
  qed
  with None show ?thesis by simp
next
  case (Some k)
  then obtain d v ks where l: "loads row = Some (PyDict d)" "map_of d okey = Some v"
      "str_utf8 v = Some ks" "k = c_str ks"
    unfolding row_key_Some by blast
  show ?thesis
  proof (cases "k \<in> fst ` set I")
    case True
    then obtain r where r: "(k, r) \<in> set I" by auto
    with inv obtain j e where j: "j < HASH_SIZE" "t ! j = Some e" "key e = k"
      unfolding table_inv_def by blast
    with inv have f: "find_slot t k (hidx k) 0 = SlotFound j"
      and "\<exists>r'. (k, r') \<in> set I \<and> rows e = [r']"
      unfolding table_inv_def by blast+
    then obtain r' where r': "(k, r') \<in> set I" "rows e = [r']" by blast
    from dist r r'(1) have "r' = r"
      by (meson eq_key_imp_eq_value)
    with r' have re: "rows e = [r]" by simp
    have "probe_row loads dumps str_utf8 okey bs t row (False, c, buf)
          = emit_row loads dumps bs d r (False, c, buf)"
      using l f j(2) re by (simp add: probe_row_def hidx_def)
    with Some l filter_distinct_key [OF dist r] show ?thesis
      by (simp add: emit_pair_def)
  next
    case False
    have "find_slot t k (hidx k) 0 \<noteq> SlotFound j" for j
    proof
      assume "find_slot t k (hidx k) 0 = SlotFound j"
      from find_slot_Found [OF this] obtain e where "j < HASH_SIZE" "t ! j = Some e" "key e = k"
        by blast
      with inv obtain r where "(k, r) \<in> set I"
        unfolding table_inv_def by blast
      with False show False by force
    qed
    then have "probe_row loads dumps str_utf8 okey bs t row (False, c, buf) = (False, c, buf)"
      using l by (simp add: probe_row_def hidx_def split: slot.splits option.splits)
    with Some filter_absent_key [OF False] show ?thesis
      by simp
  qed
qed

text \<open>When every pair encodes and the buffer has room, each pair is emitted and the
  indicator stays clear.\<close>

lemma fold_emit_pairs:
  assumes "\<forall>p\<in>set P. merged_row loads dumps (fst p) (snd p) \<noteq> None"
    and "int (length buf)
          + (\<Sum>p\<leftarrow>P. int (length (c_str (the (merged_row loads dumps (fst p) (snd p))))) + 1) \<le> bs"
  shows "fold (emit_pair loads dumps bs) P (False, c, buf) =
    (False, c + int (length P),
     buf @ concat (map (\<lambda>p. c_str (the (merged_row loads dumps (fst p) (snd p))) @ [CHR 0x00]) P))"
  using assms
proof (induction P arbitrary: c buf)
  case Nil
  then show ?case by simp
next
  case (Cons p P)
  from Cons.prems(1) obtain out where out: "merged_row loads dumps (fst p) (snd p) = Some out"
    by auto
  then obtain a b where ab: "loads (fst p) = Some (PyDict a)" "loads (snd p) = Some (PyDict b)"
      "dumps (PyDict_Update a b) = Some out"
    by (auto simp add: merged_row_def split: option.splits pyobj.splits)
  have nn: "0 \<le> (\<Sum>p\<leftarrow>P. int (length (c_str (the (merged_row loads dumps (fst p) (snd p))))) + 1)"
    by (rule sum_list_nonneg) auto
  with Cons.prems(2) out have fits: "int (length buf) + (int (length (c_str out)) + 1) \<le> bs"
    by simp
  have step: "emit_pair loads dumps bs p (False, c, buf)
        = (False, c + 1, buf @ c_str out @ [CHR 0x00])"
    using ab fits by (simp add: emit_pair_def emit_row_def Let_def)
  have rest: "int (length (buf @ c_str out @ [CHR 0x00]))
          + (\<Sum>p\<leftarrow>P. int (length (c_str (the (merged_row loads dumps (fst p) (snd p))))) + 1) \<le> bs"
    using Cons.prems(2) out by simp
  from Cons.prems(1) have "\<forall>p\<in>set P. merged_row loads dumps (fst p) (snd p) \<noteq> None"
    by simp
  from Cons.IH [OF this rest] step out show ?case
    by simp
qed

lemma join_pairs_Cons:
  "join_pairs loads str_utf8 ikey okey inner (row # outer) =
     (case row_key loads str_utf8 row okey of
        None \<Rightarrow> []
      | Some k \<Rightarrow> map (\<lambda>(k', in_row). (in_row, row))
          (filter (\<lambda>(k', in_row). k' = k) (keyed_rows loads str_utf8 ikey inner)))
     @ join_pairs loads str_utf8 ikey okey inner outer"
  by (simp add: join_pairs_def)

lemma join_pairs_Nil [simp]: "join_pairs loads str_utf8 ikey okey inner [] = []"
  by (simp add: join_pairs_def)

text \<open>The probe phase over a table that holds the keyed inner rows.\<close>

lemma fold_probe_rows:
  assumes inv: "table_inv t (keyed_rows loads str_utf8 ikey inner)"
    and dist: "distinct (map fst (keyed_rows loads str_utf8 ikey inner))"
    and dec: "\<forall>r\<in>set outer. decodes loads str_utf8 okey r"
    and enc: "\<forall>p\<in>set (join_pairs loads str_utf8 ikey okey inner outer).
                merged_row loads dumps (fst p) (snd p) \<noteq> None"
    and fits: "int (length buf)
          + (\<Sum>p\<leftarrow>join_pairs loads str_utf8 ikey okey inner outer.
               int (length (c_str (the (merged_row loads dumps (fst p) (snd p))))) + 1) \<le> bs"
  shows "fold (probe_row loads dumps str_utf8 okey bs t) outer (False, c, buf) =
    (False, c + int (length (join_pairs loads str_utf8 ikey okey inner outer)),
     buf @ concat (map (\<lambda>p. c_str (the (merged_row loads dumps (fst p) (snd p))) @ [CHR 0x00])
       (join_pairs loads str_utf8 ikey okey inner outer)))"
  using dec enc fits
proof (induction outer arbitrary: c buf)
  case Nil
  then show ?case by simp
next
  case (Cons row outer)
  let ?I = "keyed_rows loads str_utf8 ikey inner"
  let ?m = "\<lambda>p. c_str (the (merged_row loads dumps (fst p) (snd p)))"
  define ps where "ps = (case row_key loads str_utf8 row okey of
          None \<Rightarrow> []
        | Some k \<Rightarrow> map (\<lambda>(k', in_row). (in_row, row)) (filter (\<lambda>(k', in_row). k' = k) ?I))"
  define P where "P = join_pairs loads str_utf8 ikey okey inner outer"
  have jp: "join_pairs loads str_utf8 ikey okey inner (row # outer) = ps @ P"
    unfolding ps_def P_def by (rule join_pairs_Cons)
  from Cons.prems(1) have d: "decodes loads str_utf8 okey row"
    and ds: "\<forall>r\<in>set outer. decodes loads str_utf8 okey r"
    by simp_all
  from Cons.prems(2) have e1: "\<forall>p\<in>set ps. merged_row loads dumps (fst p) (snd p) \<noteq> None"
    and e2: "\<forall>p\<in>set P. merged_row loads dumps (fst p) (snd p) \<noteq> None"
    unfolding jp by simp_all
  have nn: "0 \<le> (\<Sum>p\<leftarrow>P. int (length (?m p)) + 1)"
    by (rule sum_list_nonneg) auto
  from Cons.prems(3) have f: "int (length buf) + (\<Sum>p\<leftarrow>ps. int (length (?m p)) + 1)
          + (\<Sum>p\<leftarrow>P. int (length (?m p)) + 1) \<le> bs"
    unfolding jp by simp
  with nn have f1: "int (length buf) + (\<Sum>p\<leftarrow>ps. int (length (?m p)) + 1) \<le> bs"
    by linarith
  define buf1 where "buf1 = buf @ concat (map (\<lambda>p. ?m p @ [CHR 0x00]) ps)"
  have lb: "int (length buf1) = int (length buf) + (\<Sum>p\<leftarrow>ps. int (length (?m p)) + 1)"
    unfolding buf1_def by (induction ps) (simp_all add: algebra_simps)
  have 1: "probe_row loads dumps str_utf8 okey bs t row (False, c, buf)
        = (False, c + int (length ps), buf1)"
    unfolding probe_row_pairs [OF inv dist d] ps_def [symmetric] buf1_def
    by (rule fold_emit_pairs [OF e1 f1])
  have f2: "int (length buf1) + (\<Sum>p\<leftarrow>P. int (length (?m p)) + 1) \<le> bs"
    using f lb by simp
  have 2: "fold (probe_row loads dumps str_utf8 okey bs t) outer (False, c + int (length ps), buf1)
        = (False, c + int (length ps) + int (length P),
           buf1 @ concat (map (\<lambda>p. ?m p @ [CHR 0x00]) P))"
    using Cons.IH [OF ds e2 [unfolded P_def] f2 [unfolded P_def]] by (simp add: P_def)
  have "fold (probe_row loads dumps str_utf8 okey bs t) (row # outer) (False, c, buf)
        = fold (probe_row loads dumps str_utf8 okey bs t) outer (False, c + int (length ps), buf1)"
    by (simp only: fold_simps 1)
  also note 2
  finally show ?case
    unfolding jp P_def [symmetric] buf1_def by simp
qed

subsection \<open>The join\<close>






text \<open>What the missing \<open>PyErr_Clear\<close> does to the probe phase: once the indicator is set,
  no later outer row is joined. An outer row that does not decode therefore ends the join:
  the result is that of the outer rows before it.\<close>

lemma probe_row_set:
  "probe_row loads dumps str_utf8 okey bs t row (True, c, buf) = (True, c, buf)"
  by (simp add: probe_row_def)

lemma fold_probe_rows_set:
  "fold (probe_row loads dumps str_utf8 okey bs t) outer (True, c, buf) = (True, c, buf)"
  by (induction outer) (simp_all add: probe_row_set)

lemma probe_row_fails:
  "loads row = None \<Longrightarrow>
     probe_row loads dumps str_utf8 okey bs t row (False, c, buf) = (True, c, buf)"
  by (simp add: probe_row_def)

lemma hash_join_failed_decode:
  assumes "\<forall>r\<in>set inner_rows. decodes loads str_utf8 inner_key r"
    and "\<forall>r\<in>set outer1. decodes loads str_utf8 outer_key r"
    and "distinct (map fst (keyed_rows loads str_utf8 inner_key inner_rows))"
    and "length (keyed_rows loads str_utf8 inner_key inner_rows) \<le> HASH_SIZE"
    and "\<forall>p\<in>set (join_pairs loads str_utf8 inner_key outer_key inner_rows outer1).
           merged_row loads dumps (fst p) (snd p) \<noteq> None"
    and "(\<Sum>p\<leftarrow>join_pairs loads str_utf8 inner_key outer_key inner_rows outer1.
           int (length (c_str (the (merged_row loads dumps (fst p) (snd p))))) + 1)
         \<le> output_buf_size"
    and "loads bad = None"
  shows "hash_join loads dumps str_utf8 inner_rows (outer1 @ bad # outer2) inner_key outer_key
           output_buf_size =
      (int (length (join_pairs loads str_utf8 inner_key outer_key inner_rows outer1)),
       concat (map (\<lambda>p. c_str (the (merged_row loads dumps (fst p) (snd p))) @ [CHR 0x00])
         (join_pairs loads str_utf8 inner_key outer_key inner_rows outer1)))"
proof -
  let ?I = "keyed_rows loads str_utf8 inner_key inner_rows"
  let ?P = "join_pairs loads str_utf8 inner_key outer_key inner_rows outer1"
  from build_table_inv [OF table_inv_empty _ assms(1)] assms(3) assms(4)
  obtain t where t: "build_table loads str_utf8 inner_key (False, replicate HASH_SIZE None) inner_rows
        = Inr (False, t)"
    and inv: "table_inv t ?I"
    by (auto split: sum.splits)
  have "fold (probe_row loads dumps str_utf8 outer_key output_buf_size t) outer1 (False, 0, [])
        = (False, 0 + int (length ?P),
           [] @ concat (map (\<lambda>p. c_str (the (merged_row loads dumps (fst p) (snd p))) @ [CHR 0x00]) ?P))"
    by (rule fold_probe_rows [OF inv assms(3) assms(2) assms(5)]) (use assms(6) in simp)
  moreover have "probe_row loads dumps str_utf8 outer_key output_buf_size t bad (False, c, buf)
        = (True, c, buf)" for c buf
    using assms(7) by (rule probe_row_fails)
  ultimately show ?thesis
    by (simp add: hash_join_def t fold_probe_rows_set)
qed

text \<open>The round-trip example with an outer row that does not decode put second: only the
  outer row before it is joined.\<close>

lemma hash_join_failed_decode_example:
  "hash_join
     (map_of
       [(''{\"id\":1,\"n\":\"A\"}'', PyDict [(''id'', ''1''), (''n'', ''A'')]),
        (''{\"id\":2,\"n\":\"B\"}'', PyDict [(''id'', ''2''), (''n'', ''B'')]),
        (''{\"id\":1,\"v\":10}'', PyDict [(''id'', ''1''), (''v'', ''10'')]),
        (''{\"id\":2,\"v\":20}'', PyDict [(''id'', ''2''), (''v'', ''20'')])])
     (map_of
       [([(''id'', ''1''), (''n'', ''A''), (''v'', ''10'')], ''{\"id\": 1, \"n\": \"A\", \"v\": 10}''),
        ([(''id'', ''2''), (''n'', ''B''), (''v'', ''20'')], ''{\"id\": 2, \"n\": \"B\", \"v\": 20}'')])
     Some
     [''{\"id\":1,\"n\":\"A\"}'', ''{\"id\":2,\"n\":\"B\"}'']
     [''{\"id\":1,\"v\":10}'', ''not json'', ''{\"id\":2,\"v\":20}'']
     ''id'' ''id'' 4096
   = (1, ''{\"id\": 1, \"n\": \"A\", \"v\": 10}'' @ [CHR 0x00])"
proof -
  define loads where "loads = map_of
       [(''{\"id\":1,\"n\":\"A\"}'', PyDict [(''id'', ''1''), (''n'', ''A'')]),
        (''{\"id\":2,\"n\":\"B\"}'', PyDict [(''id'', ''2''), (''n'', ''B'')]),
        (''{\"id\":1,\"v\":10}'', PyDict [(''id'', ''1''), (''v'', ''10'')]),
        (''{\"id\":2,\"v\":20}'', PyDict [(''id'', ''2''), (''v'', ''20'')])]"
  define dumps where "dumps = map_of
       [([(''id'', ''1''), (''n'', ''A''), (''v'', ''10'')], ''{\"id\": 1, \"n\": \"A\", \"v\": 10}''),
        ([(''id'', ''2''), (''n'', ''B''), (''v'', ''20'')], ''{\"id\": 2, \"n\": \"B\", \"v\": 20}'')]"
  define inner where "inner = [''{\"id\":1,\"n\":\"A\"}'', ''{\"id\":2,\"n\":\"B\"}'']"
  have kr: "keyed_rows loads Some ''id'' inner
      = [(''1'', ''{\"id\":1,\"n\":\"A\"}''), (''2'', ''{\"id\":2,\"n\":\"B\"}'')]"
    by (simp add: keyed_rows_def map_filter_simps row_key_def c_str_def loads_def inner_def)
  have jp: "join_pairs loads Some ''id'' ''id'' inner [''{\"id\":1,\"v\":10}'']
      = [(''{\"id\":1,\"n\":\"A\"}'', ''{\"id\":1,\"v\":10}'')]"
    unfolding join_pairs_def kr
    by (simp add: row_key_def c_str_def loads_def)
  have m: "merged_row loads dumps ''{\"id\":1,\"n\":\"A\"}'' ''{\"id\":1,\"v\":10}''
             = Some ''{\"id\": 1, \"n\": \"A\", \"v\": 10}''"
    by (simp add: merged_row_def loads_def dumps_def PyDict_Update_def)
  have bad: "loads ''not json'' = None"
    by (simp add: loads_def)
  have dec_in: "\<forall>r\<in>set inner. decodes loads Some ''id'' r"
    by (simp add: decodes_def loads_def inner_def)
  have dec_out: "\<forall>r\<in>set [''{\"id\":1,\"v\":10}'']. decodes loads Some ''id'' r"
    by (simp add: decodes_def loads_def)
  have d: "distinct (map fst (keyed_rows loads Some ''id'' inner))"
    and l: "length (keyed_rows loads Some ''id'' inner) \<le> HASH_SIZE"
    unfolding kr by simp_all
  have e: "\<forall>p\<in>set (join_pairs loads Some ''id'' ''id'' inner [''{\"id\":1,\"v\":10}'']).
             merged_row loads dumps (fst p) (snd p) \<noteq> None"
    unfolding jp by (simp add: m)
  have f: "(\<Sum>p\<leftarrow>join_pairs loads Some ''id'' ''id'' inner [''{\"id\":1,\"v\":10}''].
             int (length (c_str (the (merged_row loads dumps (fst p) (snd p))))) + 1) \<le> 4096"
    unfolding jp by (simp add: m c_str_def)
  have "hash_join loads dumps Some inner
          ([''{\"id\":1,\"v\":10}''] @ ''not json'' # [''{\"id\":2,\"v\":20}'']) ''id'' ''id'' 4096
        = (int (length (join_pairs loads Some ''id'' ''id'' inner [''{\"id\":1,\"v\":10}''])),
           concat (map (\<lambda>p. c_str (the (merged_row loads dumps (fst p) (snd p))) @ [CHR 0x00])
             (join_pairs loads Some ''id'' ''id'' inner [''{\"id\":1,\"v\":10}''])))"
    by (rule hash_join_failed_decode [OF dec_in dec_out d l e f bad])
  then have "hash_join loads dumps Some inner
          [''{\"id\":1,\"v\":10}'', ''not json'', ''{\"id\":2,\"v\":20}''] ''id'' ''id'' 4096
        = (1, ''{\"id\": 1, \"n\": \"A\", \"v\": 10}'' @ [CHR 0x00])"
    unfolding jp by (simp add: m c_str_def)
  then show ?thesis
    unfolding loads_def dumps_def inner_def .
qed

section \<open>Properties of the hash join over pickled pages\<close>

subsection \<open>Linear probing without a bound\<close>






subsection \<open>The build phase over pages\<close>

lemma keyed_pages_Nil [simp]: "keyed_pages loads as_long kn [] = []"
  by (simp add: keyed_pages_def map_filter_simps)









subsection \<open>The probe phase over pages\<close>




lemma join_pairs_p_Nil [simp]: "join_pairs_p loads as_long ikey okey inner [] = []"
  by (simp add: join_pairs_p_def)




subsection \<open>Keys and tables outside the contract\<close>

text \<open>A negative key that is not a multiple of the table size indexes the table out of
  bounds: the remainder of \<open>-5\<close> is \<open>-5\<close>, as \<open>size_t\<close> a number near \<open>2^64\<close>.\<close>

lemma slot_of_negative: "slot_of (- 5) = 2 ^ 64 - 5"
  by (simp add: slot_of_def c_rem_def)

lemma build_row_p_negative_key:
  assumes "page ! 0 \<noteq> 0" "pickle_loads (take PAGE_SIZE page) = Some (PyDict [(kn, v)])"
    "as_long v = Some (- 5)"
  shows "build_row_p pickle_loads as_long kn (False, table) page = Some (Inl OutOfBounds)"
proof -
  have "(word_of_int (- 5) :: int64) \<noteq> - 1"
    by simp
  moreover have "HASH_TABLE_SIZE \<le> slot_of (word_of_int (- 5))"
    using slot_of_negative by simp
  ultimately show ?thesis
    using assms by (simp add: build_row_p_def unpickle_page_def get_dict_int_def)
qed

text \<open>On a table whose slots all hold other keys the walk does not end.\<close>

lemma probe_slot_Some:
  "probe_slot t k s = Some j \<Longrightarrow> \<not> (\<forall>i. \<exists>e. t ! i = Some e \<and> ekey e \<noteq> k)"
proof (induction rule: probe_slot.raw_induct [rotated 1, consumes 1])
  case (1 probe t k idx j)
  show ?case
  proof
    assume a: "\<forall>i. \<exists>e. t ! i = Some e \<and> ekey e \<noteq> k"
    then obtain e where "t ! idx = Some e" "ekey e \<noteq> k"
      by blast
    with 1(2) have "probe t k ((idx + 1) mod HASH_TABLE_SIZE) = Some j"
      by simp
    from 1(1) [OF this] a show False
      by simp
  qed
qed

lemma probe_slot_full:
  assumes "\<forall>i. \<exists>e. t ! i = Some e \<and> ekey e \<noteq> k"
  shows "probe_slot t k s = None"
  using assms probe_slot_Some [of t k s] by (cases "probe_slot t k s") auto

section \<open>The contract of the two joins\<close>



subsection \<open>More keys than slots\<close>

lemma c_str_replicate [simp]: "c \<noteq> CHR 0x00 \<Longrightarrow> c_str (replicate k c) = replicate k c"
  by (simp add: c_str_def)






end
